theory Spec2Isabelle
  imports Main "HOL-Library.Sublist"
begin

section \<open>The per-file scan worker of gogrep (cmd/gogrep/worker.go)\<close>

text \<open>
  The worker reads one file, parses it, walks the syntax tree, asks the matcher at every
  node, re-filters the hits and turns the accepted ones into match records. The file
  system, the Go parser, the position table (\<open>token.FileSet\<close>), the pattern matcher, the
  filter evaluator, the tree walker and the syntax printer are not part of worker.go: they
  are fields of the record \<open>env\<close> below, so every theorem holds for each of their
  behaviours. A run-time panic of Go (index or slice bounds out of range, the explicit
  \<open>panic(err)\<close> of nodeText) is the value \<open>None\<close>, and \<open>Panicked\<close> as the outcome
  of grepFile.

  Go's \<open>int\<close> is \<open>int\<close> here: the only arithmetic is on byte offsets of one file and on
  the number of hits, far from 64 bits. A Go \<open>string\<close> is a byte sequence, \<open>string\<close>
  here.
\<close>

subsection \<open>Data model\<close>

type_synonym bytes = string

text \<open>
  A \<open>[]byte\<close> with its capacity: \<open>elems\<close> are the bytes below \<open>len\<close>, \<open>spare\<close> the bytes
  of the backing array from \<open>len\<close> up to \<open>cap\<close>. The slice that \<open>os.ReadFile\<close> returns has
  spare capacity as a rule.
\<close>

record byteSlice =
  elems :: bytes
  spare :: bytes

text \<open>\<open>token.Position\<close>: only the fields worker.go reads.\<close>

record position =
  Line :: int
  Offset :: int

text \<open>
  A \<open>*token.FileSet\<close> is used through \<open>Position\<close> alone (and handed to the parser and
  the printer), so it is modelled by that lookup: from a \<open>token.Pos\<close> to its position.
\<close>

type_synonym fileSet = "int \<Rightarrow> position"

text \<open>
  An \<open>ast.Node\<close>, as far as worker.go looks at it: \<open>Pos()\<close>, \<open>End()\<close>, whether it is
  an \<open>*ast.Comment\<close> (with its \<open>Text\<close>) and whether \<open>gogrep.IsEmptyNodeSlice\<close> holds.
  The field \<open>payload\<close> stands for everything else of the node, which only the matcher,
  the filter evaluator and the printer inspect.
\<close>

datatype nodeKind = EmptyNodeSlice | Comment (Text: string) | OtherNode

record node =
  Pos :: int
  End :: int
  kind :: nodeKind
  payload :: string

definition IsEmptyNodeSlice :: "node \<Rightarrow> bool" where
  "IsEmptyNodeSlice nd = (kind nd = EmptyNodeSlice)"

text \<open>\<open>ast.CommentGroup\<close> (its \<open>List\<close> of comments, each with its \<open>Text\<close>) and \<open>ast.File\<close>.\<close>

type_synonym commentGroup = "string list"

record astFile =
  Name :: string
  Comments :: "commentGroup list"
  Decls :: "node list"

text \<open>\<open>gogrep.CapturedNode\<close> and \<open>gogrep.MatchData\<close>.\<close>

record gogrepCapturedNode =
  capName :: string
  capNode :: node

record matchData =
  Node :: node
  Capture :: "gogrepCapturedNode list"

text \<open>
  The records \<open>capturedNode\<close> and \<open>match\<close> of the command. Field names that occur in
  two records, or that Isabelle reserves, carry the initial of their record.
\<close>

record capturedNode =
  startOffset_c :: int
  endOffset_c :: int
  data_c :: gogrepCapturedNode

record match =
  filename_m :: string
  line :: int
  startOffset :: int
  endOffset :: int
  capture :: "capturedNode list"
  text_m :: string
  matchStartOffset :: int
  matchLength :: int

text \<open>
  Modelled from the spec: the three-valued flag \<open>bool3\<close> with its method \<open>Eq\<close> is declared
  outside worker.go. The spec has it as unset / true / false, a requirement being met
  when the observed status matches the required value.
\<close>

datatype bool3 = bool3unset | bool3false | bool3true

definition Eq :: "bool3 \<Rightarrow> bool \<Rightarrow> bool" where
  "Eq b v = (if v then b = bool3true else b = bool3false)"

record filterHints =
  testCond :: bool3
  autogenCond :: bool3

text \<open>
  Modelled from the spec: \<open>filters.Expr\<close> is declared outside worker.go, which reads its
  \<open>Op\<close> only; \<open>OpNop\<close> is the distinguished no-op operation.
\<close>

datatype operation = OpNop | OpOther nat

datatype filterExpr = FilterExpr (Op: operation) (Args: "filterExpr list")

text \<open>Values that worker.go only stores or passes on.\<close>

typedecl pattern
typedecl matcherState
typedecl filterInfo
typedecl heatmapIndex

text \<open>
  The struct \<open>worker\<close>. A nil map is \<open>None\<close>. The fields \<open>id\<close>, \<open>m\<close> and \<open>n\<close> are
  \<open>id_w\<close>, \<open>m_w\<close> and \<open>n_w\<close>. The pointers \<open>filterExpr\<close>, \<open>m\<close> and \<open>fset\<close> are taken
  to be non-nil.
\<close>

record worker =
  id_w :: int
  countMode :: bool
  needCapture :: bool
  needMatchLine :: bool
  workDir :: string
  heatmapFilenameSet :: "string set option"
  heatmap :: heatmapIndex
  filterHints :: filterHints
  filterInfo :: filterInfo
  filterExpr :: filterExpr
  m_w :: pattern
  gogrepState :: matcherState
  fset :: fileSet
  matches :: "match list"
  errors :: "string list"
  data :: byteSlice
  filename :: string
  pkgName :: string
  typeName :: string
  funcName :: string
  closureID :: int
  n_w :: int

subsection \<open>Byte slices\<close>

text \<open>
  \<open>len(s)\<close> (here \<open>sliceLen\<close>), \<open>cap(s)\<close> (here \<open>sliceCap\<close>), \<open>s[i]\<close> and
  \<open>s[lo:hi]\<close> on a byte slice, with Go's bounds
  checks: an index is checked against the length, the upper bound of a slice expression
  against the capacity, so that \<open>s[lo:hi]\<close> with \<open>hi\<close> between \<open>len(s)\<close> and \<open>cap(s)\<close>
  returns bytes of the backing array. \<open>slice\<close> gives the bytes of the result, as the
  conversion to \<open>string\<close> does.
\<close>

definition sliceLen :: "byteSlice \<Rightarrow> int" where
  "sliceLen s = int (length (elems s))"

definition sliceCap :: "byteSlice \<Rightarrow> int" where
  "sliceCap s = int (length (elems s)) + int (length (spare s))"

definition index :: "byteSlice \<Rightarrow> int \<Rightarrow> char option" where
  "index s i = (if 0 \<le> i \<and> i < sliceLen s then Some (elems s ! nat i) else None)"

definition slice :: "byteSlice \<Rightarrow> int \<Rightarrow> int \<Rightarrow> bytes option" where
  "slice s lo hi =
     (if 0 \<le> lo \<and> lo \<le> hi \<and> hi \<le> sliceCap s
      then Some (take (nat (hi - lo)) (drop (nat lo) (elems s @ spare s))) else None)"

subsection \<open>initMatchText\<close>

definition isNewline :: "char \<Rightarrow> bool" where
  "isNewline b = (b = CHR 0x0A \<or> b = CHR 0x0D)"

text \<open>
  The first loop of initMatchText, from the current value of \<open>start\<close>:
  \<^verbatim>\<open>for start > 0 { if isNewline(w.data[start]) { if start != startPos { start++ }; break }; start-- }\<close>
\<close>

function expandStart :: "byteSlice \<Rightarrow> int \<Rightarrow> int \<Rightarrow> int option" where
  "expandStart d startPos start =
     (if start > 0 then
        (case index d start of
           None \<Rightarrow> None
         | Some b \<Rightarrow>
             if isNewline b then Some (if start \<noteq> startPos then start + 1 else start)
             else expandStart d startPos (start - 1))
      else Some start)"
  by pat_completeness auto
termination
  by (relation "measure (\<lambda>(d, startPos, start). nat start)") auto

text \<open>
  The second loop:
  \<^verbatim>\<open>for end < len(w.data) { if isNewline(w.data[end]) { break }; end++ }\<close>
\<close>

function expandEnd :: "byteSlice \<Rightarrow> int \<Rightarrow> int option" where
  "expandEnd d e =
     (if e < sliceLen d then
        (case index d e of
           None \<Rightarrow> None
         | Some b \<Rightarrow> if isNewline b then Some e else expandEnd d (e + 1))
      else Some e)"
  by pat_completeness auto
termination
  by (relation "measure (\<lambda>(d, e). nat (sliceLen d - e))") auto

declare expandStart.simps [simp del]
declare expandEnd.simps [simp del]

definition initMatchText :: "worker \<Rightarrow> match \<Rightarrow> int \<Rightarrow> int \<Rightarrow> match option" where
  "initMatchText w m startPos endPos =
     (if \<not> needMatchLine w then
        (case slice (data w) startPos endPos of
           None \<Rightarrow> None
         | Some t \<Rightarrow>
             Some (m\<lparr>text_m := t, matchStartOffset := 0, matchLength := int (length t)\<rparr>))
      else
        (case expandStart (data w) startPos startPos of
           None \<Rightarrow> None
         | Some start \<Rightarrow>
            (case expandEnd (data w) endPos of
               None \<Rightarrow> None
             | Some e \<Rightarrow>
                (case slice (data w) start e of
                   None \<Rightarrow> None
                 | Some t \<Rightarrow>
                     Some (m\<lparr>text_m := t, matchStartOffset := startPos - start,
                              matchLength := endPos - startPos\<rparr>)))))"

subsection \<open>The collaborators\<close>

text \<open>
  \<open>filterContext\<close>, the value handed to the filter evaluator: the worker and the hit.
\<close>

record filterContext =
  w_ctx :: worker
  m_ctx :: matchData

text \<open>
  What worker.go calls and does not define. An \<open>error\<close> of Go is its message.
  \<^item> \<open>ReadFile\<close> is \<open>os.ReadFile\<close>, \<open>Base\<close> is \<open>filepath.Base\<close>, \<open>ToLower\<close> is
    \<open>strings.ToLower\<close>.
  \<^item> \<open>NewFileSet\<close> is \<open>token.NewFileSet()\<close>; \<open>ParseFile\<close> is \<open>parser.ParseFile\<close>, given
    the file set, the name, the bytes and whether \<open>parser.ParseComments\<close> is set; it
    fills the file set in place, so it returns the file set as well.
  \<^item> \<open>MatchNode\<close> is \<open>(*gogrep.Pattern).MatchNode\<close>: from the pattern, the matcher state
    and a node to the hits it reports to the callback, in order, and the state it leaves.
  \<^item> \<open>applyFilter\<close> is the filter evaluator of the command.
  \<^item> \<open>walkOrder\<close> gives the nodes of a parsed file in the order in which
    \<open>astWalker.walk\<close> visits them.
  \<^item> \<open>Fprint\<close> is \<open>printer.Fprint\<close> into a fresh buffer: an error or the bytes written.
\<close>

record env =
  ReadFile :: "string \<Rightarrow> string + byteSlice"
  Base :: "string \<Rightarrow> string"
  ToLower :: "string \<Rightarrow> string"
  NewFileSet :: fileSet
  ParseFile :: "fileSet \<Rightarrow> string \<Rightarrow> byteSlice \<Rightarrow> bool \<Rightarrow> fileSet \<times> (string + astFile)"
  MatchNode :: "pattern \<Rightarrow> matcherState \<Rightarrow> node \<Rightarrow> matchData list \<times> matcherState"
  applyFilter :: "filterContext \<Rightarrow> filterExpr \<Rightarrow> node \<Rightarrow> bool"
  walkOrder :: "astFile \<Rightarrow> node list"
  Fprint :: "fileSet \<Rightarrow> node \<Rightarrow> string + bytes"

text \<open>\<open>strings.Contains\<close> and \<open>strings.HasSuffix\<close>.\<close>

definition Contains :: "string \<Rightarrow> string \<Rightarrow> bool" where
  "Contains s substr = sublist substr s"

definition HasSuffix :: "string \<Rightarrow> string \<Rightarrow> bool" where
  "HasSuffix s suf = suffix suf s"

subsection \<open>isAutogenFile and isAutogenComment\<close>

text \<open>The loop of isAutogenComment over \<open>comment.List\<close>, with its two flags.\<close>

fun isAutogenCommentLoop :: "env \<Rightarrow> bool \<Rightarrow> bool \<Rightarrow> string list \<Rightarrow> bool" where
  "isAutogenCommentLoop env generated doNotEdit [] = False"
| "isAutogenCommentLoop env generated doNotEdit (c # cs) =
     (let s = ToLower env c;
          generated' = (if \<not> generated
                        then Contains s '' code generated '' \<or> Contains s '' generated by ''
                        else generated);
          doNotEdit' = (if \<not> doNotEdit
                        then Contains s ''do not edit'' \<or> Contains s ''don't edit''
                        else doNotEdit)
      in if generated' \<and> doNotEdit' then True
         else isAutogenCommentLoop env generated' doNotEdit' cs)"

definition isAutogenComment :: "env \<Rightarrow> commentGroup \<Rightarrow> bool" where
  "isAutogenComment env comment = isAutogenCommentLoop env False False comment"

fun isAutogenFileLoop :: "env \<Rightarrow> commentGroup list \<Rightarrow> bool" where
  "isAutogenFileLoop env [] = False"
| "isAutogenFileLoop env (comment # rest) =
     (if isAutogenComment env comment then True else isAutogenFileLoop env rest)"

definition isAutogenFile :: "env \<Rightarrow> astFile \<Rightarrow> bool" where
  "isAutogenFile env f = isAutogenFileLoop env (Comments f)"

text \<open>
  The detector as the specification words it: a comment group is a generation marker when
  some line of it holds a code-generation phrase and some line of it holds a do-not-edit
  phrase, both looked for in the lower-cased text; a file is autogenerated when one of its
  comment groups is a generation marker.
\<close>

definition hasGenerationPhrase :: "env \<Rightarrow> string \<Rightarrow> bool" where
  "hasGenerationPhrase env c =
     (Contains (ToLower env c) '' code generated '' \<or> Contains (ToLower env c) '' generated by '')"

definition hasDoNotEditPhrase :: "env \<Rightarrow> string \<Rightarrow> bool" where
  "hasDoNotEditPhrase env c =
     (Contains (ToLower env c) ''do not edit'' \<or> Contains (ToLower env c) ''don't edit'')"

definition specGenerationMarker :: "env \<Rightarrow> commentGroup \<Rightarrow> bool" where
  "specGenerationMarker env g =
     ((\<exists>c \<in> set g. hasGenerationPhrase env c) \<and> (\<exists>c \<in> set g. hasDoNotEditPhrase env c))"

definition specAutogenFile :: "env \<Rightarrow> astFile \<Rightarrow> bool" where
  "specAutogenFile env f = (\<exists>g \<in> set (Comments f). specGenerationMarker env g)"

subsection \<open>nodeText\<close>

definition nodeText :: "env \<Rightarrow> worker \<Rightarrow> node \<Rightarrow> bytes option" where
  "nodeText env w nd =
     (if IsEmptyNodeSlice nd then Some []
      else
        let from = Offset (fset w (Pos nd));
            to = Offset (fset w (End nd));
            src = data w
        in if (from \<ge> 0 \<and> from < sliceLen src) \<and> (to \<ge> 0 \<and> to < sliceLen src)
           then slice src from to
           else (case kind nd of
                   Comment t \<Rightarrow> Some t
                 | _ \<Rightarrow> (case Fprint env (fset w) nd of
                           Inl err \<Rightarrow> None
                         | Inr buf \<Rightarrow> Some buf)))"

subsection \<open>Visit and initMatchCapture\<close>

definition initMatchCapture :: "worker \<Rightarrow> match \<Rightarrow> gogrepCapturedNode list \<Rightarrow> match" where
  "initMatchCapture w m cap =
     m\<lparr>capture :=
         map (\<lambda>c. \<lparr>startOffset_c = Offset (fset w (Pos (capNode c))),
                   endOffset_c = Offset (fset w (End (capNode c))),
                   data_c = c\<rparr>) cap\<rparr>"

text \<open>
  The function literal that Visit hands to the matcher, run on one hit. \<open>evalAccept\<close>
  is the expression \<^verbatim>\<open>w.filterExpr.Op == filters.OpNop || applyFilter(...)\<close> with the
  order of evaluation of Go: its value, and the list of the calls of the filter
  evaluator it makes, each with the context it is given. The right operand of \<open>||\<close> is
  evaluated only when the left one is false. \<open>accept\<close> is the local variable of that
  name.
\<close>

definition evalAccept :: "env \<Rightarrow> worker \<Rightarrow> matchData \<Rightarrow> bool \<times> filterContext list" where
  "evalAccept env w d =
     (if Op (filterExpr w) = OpNop then (True, [])
      else (applyFilter env \<lparr>w_ctx = w, m_ctx = d\<rparr> (filterExpr w) (Node d),
            [\<lparr>w_ctx = w, m_ctx = d\<rparr>]))"

definition accept :: "env \<Rightarrow> worker \<Rightarrow> matchData \<Rightarrow> bool" where
  "accept env w d = fst (evalAccept env w d)"

definition visitCallback :: "env \<Rightarrow> worker \<Rightarrow> matchData \<Rightarrow> worker option" where
  "visitCallback env w d =
     (if \<not> accept env w d then Some w
         else
           let w1 = w\<lparr>n_w := n_w w + 1\<rparr>
           in if countMode w1 then Some w1
              else
                let start = fset w1 (Pos (Node d));
                    end = fset w1 (End (Node d));
                    m0 = \<lparr>filename_m = filename w1, line = Line start,
                          startOffset = Offset start, endOffset = Offset end,
                          capture = [], text_m = [], matchStartOffset = 0, matchLength = 0\<rparr>;
                    m1 = (if needCapture w1 then initMatchCapture w1 m0 (Capture d) else m0)
                in (case initMatchText w1 m1 (Offset start) (Offset end) of
                      None \<Rightarrow> None
                    | Some m2 \<Rightarrow> Some (w1\<lparr>matches := matches w1 @ [m2]\<rparr>)))"

fun runCallbacks :: "env \<Rightarrow> worker \<Rightarrow> matchData list \<Rightarrow> worker option" where
  "runCallbacks env w [] = Some w"
| "runCallbacks env w (d # ds) =
     (case visitCallback env w d of
        None \<Rightarrow> None
      | Some w' \<Rightarrow> runCallbacks env w' ds)"

text \<open>
  Visit: the matcher works on \<open>w.gogrepState\<close> and calls the function literal once per
  hit. The callbacks are run on the worker that holds the state the matcher leaves.
\<close>

definition Visit :: "env \<Rightarrow> worker \<Rightarrow> node \<Rightarrow> worker option" where
  "Visit env w nd =
     (case MatchNode env (m_w w) (gogrepState w) nd of
        (hits, st) \<Rightarrow> runCallbacks env (w\<lparr>gogrepState := st\<rparr>) hits)"

subsection \<open>parseFile and grepFile\<close>

definition parseFile :: "env \<Rightarrow> worker \<Rightarrow> fileSet \<Rightarrow> string \<Rightarrow> byteSlice \<Rightarrow> fileSet \<times> (string + astFile)" where
  "parseFile env w fs fname d =
     (let needComments = (if autogenCond (filterHints w) \<noteq> bool3unset then True else False)
      in ParseFile env fs fname d needComments)"

text \<open>
  Modelled from the spec: \<open>astWalker.walk\<close> is defined outside worker.go. By the spec it
  calls the visitation callback once for every node of the tree, in a fixed order, and
  keeps no state of its own; the order is \<open>walkOrder\<close>.
\<close>

fun walk :: "env \<Rightarrow> worker \<Rightarrow> node list \<Rightarrow> worker option" where
  "walk env w [] = Some w"
| "walk env w (nd # nds) =
     (case Visit env w nd of
        None \<Rightarrow> None
      | Some w' \<Rightarrow> walk env w' nds)"

text \<open>
  The calls of the filter evaluator made while the hits of one node are handled, while
  one node is visited, and during a walk, in order.
\<close>

fun callbacksFilterCalls :: "env \<Rightarrow> worker \<Rightarrow> matchData list \<Rightarrow> filterContext list" where
  "callbacksFilterCalls env w [] = []"
| "callbacksFilterCalls env w (d # ds) =
     snd (evalAccept env w d) @
     (case visitCallback env w d of
        None \<Rightarrow> []
      | Some w' \<Rightarrow> callbacksFilterCalls env w' ds)"

definition VisitFilterCalls :: "env \<Rightarrow> worker \<Rightarrow> node \<Rightarrow> filterContext list" where
  "VisitFilterCalls env w nd =
     (case MatchNode env (m_w w) (gogrepState w) nd of
        (hits, st) \<Rightarrow> callbacksFilterCalls env (w\<lparr>gogrepState := st\<rparr>) hits)"

fun walkFilterCalls :: "env \<Rightarrow> worker \<Rightarrow> node list \<Rightarrow> filterContext list" where
  "walkFilterCalls env w [] = []"
| "walkFilterCalls env w (nd # nds) =
     VisitFilterCalls env w nd @
     (case Visit env w nd of
        None \<Rightarrow> []
      | Some w' \<Rightarrow> walkFilterCalls env w' nds)"

text \<open>
  What a call of grepFile gives: the two results and the worker it leaves, or a panic.
  The second component of \<open>grepFile\<close> lists the names passed to \<open>os.ReadFile\<close>.
\<close>

datatype grepResult = Returned int "string option" worker | Panicked

definition grepFile :: "env \<Rightarrow> worker \<Rightarrow> string \<Rightarrow> grepResult \<times> string list" where
  "grepFile env w fname =
     (if (case heatmapFilenameSet w of
            None \<Rightarrow> False
          | Some names \<Rightarrow> Base env fname \<notin> names)
      then (Returned 0 None w, [])
      else if testCond (filterHints w) \<noteq> bool3unset \<and>
              \<not> Eq (testCond (filterHints w)) (HasSuffix fname ''_test.go'')
      then (Returned 0 None w, [])
      else
        (case ReadFile env fname of
           Inl err \<Rightarrow> (Returned 0 (Some (''read file: '' @ err)) w, [fname])
         | Inr d \<Rightarrow>
            (case parseFile env w (NewFileSet env) fname d of
               (fs, parsed) \<Rightarrow>
                 let w1 = w\<lparr>fset := fs\<rparr>
                 in (case parsed of
                       Inl err \<Rightarrow> (Returned 0 (Some err) w1, [fname])
                     | Inr rootFile \<Rightarrow>
                         if autogenCond (filterHints w1) \<noteq> bool3unset \<and>
                            \<not> Eq (autogenCond (filterHints w1)) (isAutogenFile env rootFile)
                         then (Returned 0 None w1, [fname])
                         else
                           let w2 = w1\<lparr>data := d, filename := fname,
                                       pkgName := Name rootFile, n_w := 0\<rparr>
                           in (case walk env w2 (walkOrder env rootFile) of
                                 None \<Rightarrow> (Panicked, [fname])
                               | Some w3 \<Rightarrow> (Returned (n_w w3) None w3, [fname]))))))"

subsection \<open>Notions of the specification, and sample values\<close>

text \<open>
  \<open>lineStart d p s\<close>: offset \<open>s\<close> is where the line holding offset \<open>p\<close> starts, that
  is the byte right after the nearest newline before \<open>p\<close>, or byte 0 when no newline
  precedes \<open>p\<close>. \<open>lineEnd d p e\<close>: offset \<open>e\<close> is the nearest newline at or after \<open>p\<close>,
  or the length of \<open>d\<close> when none follows, so that a text ending at \<open>e\<close> (exclusive)
  ends with the byte right before that newline.
\<close>

definition lineStart :: "bytes \<Rightarrow> int \<Rightarrow> int \<Rightarrow> bool" where
  "lineStart d p s =
     (0 \<le> s \<and> s \<le> p \<and> (s = 0 \<or> isNewline (d ! nat (s - 1))) \<and>
      (\<forall>j \<in> set [s..p - 1]. \<not> isNewline (d ! nat j)))"

definition lineEnd :: "bytes \<Rightarrow> int \<Rightarrow> int \<Rightarrow> bool" where
  "lineEnd d p e =
     (p \<le> e \<and> e \<le> int (length d) \<and> (e = int (length d) \<or> isNewline (d ! nat e)) \<and>
      (\<forall>j \<in> set [p..e - 1]. \<not> isNewline (d ! nat j)))"

text \<open>
  The zero values of the structs \<open>worker\<close> and \<open>match\<close> (with the no-op filter expression
  for the pointer \<open>filterExpr\<close>), from which the examples are built, and \<open>pendingMatch\<close>:
  the record \<open>m\<close> of the function literal of Visit as it stands when initMatchText is
  called on it.
\<close>

definition zeroWorker :: worker where
  "zeroWorker =
     \<lparr>id_w = 0, countMode = False, needCapture = False, needMatchLine = False,
      workDir = [], heatmapFilenameSet = None, heatmap = undefined,
      filterHints = \<lparr>testCond = bool3unset, autogenCond = bool3unset\<rparr>,
      filterInfo = undefined, filterExpr = FilterExpr OpNop [],
      m_w = undefined, gogrepState = undefined,
      fset = (\<lambda>p. \<lparr>Line = 0, Offset = 0\<rparr>),
      matches = [], errors = [], data = \<lparr>elems = [], spare = []\<rparr>, filename = [],
      pkgName = [],
      typeName = [], funcName = [], closureID = 0, n_w = 0\<rparr>"

definition pendingMatch :: "worker \<Rightarrow> matchData \<Rightarrow> match" where
  "pendingMatch w d =
     (let start = fset w (Pos (Node d));
          end = fset w (End (Node d));
          m0 = \<lparr>filename_m = filename w, line = Line start,
                startOffset = Offset start, endOffset = Offset end,
                capture = [], text_m = [], matchStartOffset = 0, matchLength = 0\<rparr>
      in if needCapture w then initMatchCapture w m0 (Capture d) else m0)"

definition zeroMatch :: match where
  "zeroMatch =
     \<lparr>filename_m = [], line = 0, startOffset = 0, endOffset = 0, capture = [],
      text_m = [], matchStartOffset = 0, matchLength = 0\<rparr>"

text \<open>
  A sample run: the file \<open>x.go\<close> holds \<open>package p\<close> and \<open>var x = 1 + 2\<close> on two lines,
  24 bytes, read into a slice with 8 spare bytes;
  its position table has base 1, as a fresh file set gives the first file; the matcher
  reports every node it is asked about, capturing the node itself; the filter
  evaluator accepts the nodes written as one byte; the walker visits four nodes.
  \<open>toLowerASCII\<close> is \<open>strings.ToLower\<close> on ASCII text.
\<close>

definition toLowerASCII :: "string \<Rightarrow> string" where
  "toLowerASCII s =
     map (\<lambda>c. if 65 \<le> (of_char c :: nat) \<and> (of_char c :: nat) \<le> 90
              then char_of ((of_char c :: nat) + 32) else c) s"

definition exampleBytes :: bytes where
  "exampleBytes = ''package p\<newline>var x = 1 + 2\<newline>''"

definition exampleData :: byteSlice where
  "exampleData =
     \<lparr>elems = exampleBytes,
      spare = [CHR 0x00, CHR 0x00, CHR 0x00, CHR 0x00, CHR 0x00, CHR 0x00, CHR 0x00, CHR 0x00]\<rparr>"

definition exampleFset :: fileSet where
  "exampleFset =
     (\<lambda>p. if 1 \<le> p \<and> p \<le> 25
          then \<lparr>Line = (if p \<le> 10 then 1 else if p \<le> 24 then 2 else 3), Offset = p - 1\<rparr>
          else \<lparr>Line = 0, Offset = 0\<rparr>)"

definition exprNode :: node where
  "exprNode = \<lparr>Pos = 19, End = 24, kind = OtherNode, payload = ''1 + 2''\<rparr>"

definition exampleNodes :: "node list" where
  "exampleNodes =
     [\<lparr>Pos = 15, End = 16, kind = OtherNode, payload = ''x''\<rparr>,
      exprNode,
      \<lparr>Pos = 19, End = 20, kind = OtherNode, payload = ''1''\<rparr>,
      \<lparr>Pos = 23, End = 24, kind = OtherNode, payload = ''2''\<rparr>]"

definition exampleFile :: astFile where
  "exampleFile = \<lparr>Name = ''p'', Comments = [], Decls = exampleNodes\<rparr>"

definition exampleEnv :: env where
  "exampleEnv =
     \<lparr>ReadFile = (\<lambda>name. if name = ''x.go'' then Inr exampleData
                          else if name = ''bad.go''
                          then Inr \<lparr>elems = ''package'', spare = [CHR 0x00]\<rparr>
                          else Inl ''no such file''),
      Base = (\<lambda>path. path),
      ToLower = toLowerASCII,
      NewFileSet = (\<lambda>p. \<lparr>Line = 0, Offset = 0\<rparr>),
      ParseFile = (\<lambda>fs name d comments.
                     if d = exampleData then (exampleFset, Inr exampleFile)
                     else (fs, Inl ''expected package name'')),
      MatchNode = (\<lambda>pat st nd.
                     ([\<lparr>Node = nd, Capture = [\<lparr>capName = ''x'', capNode = nd\<rparr>]\<rparr>], st)),
      applyFilter = (\<lambda>ctx e nd. length (payload nd) = 1),
      walkOrder = Decls,
      Fprint = (\<lambda>fs nd. Inr (payload nd))\<rparr>"

definition exampleWorker :: worker where
  "exampleWorker = zeroWorker\<lparr>fset := exampleFset, data := exampleData, filename := ''x.go''\<rparr>"

definition exampleHit :: matchData where
  "exampleHit = \<lparr>Node = exprNode, Capture = []\<rparr>"

text \<open>
  A file that begins with an empty line: a newline, \<open>package p\<close>, a newline; with its
  position table, and the hit on the identifier \<open>p\<close>, from offset 9 to offset 10.
\<close>

definition leadingNewlineData :: byteSlice where
  "leadingNewlineData =
     \<lparr>elems = ''\<newline>package p\<newline>'', spare = [CHR 0x00, CHR 0x00, CHR 0x00, CHR 0x00]\<rparr>"

definition leadingNewlineFset :: fileSet where
  "leadingNewlineFset =
     (\<lambda>p. if 1 \<le> p \<and> p \<le> 12
          then \<lparr>Line = (if p \<le> 1 then 1 else if p \<le> 11 then 2 else 3), Offset = p - 1\<rparr>
          else \<lparr>Line = 0, Offset = 0\<rparr>)"

definition leadingNewlineWorker :: worker where
  "leadingNewlineWorker =
     zeroWorker\<lparr>needMatchLine := True, fset := leadingNewlineFset,
                data := leadingNewlineData, filename := ''y.go''\<rparr>"

definition leadingNewlineHit :: matchData where
  "leadingNewlineHit =
     \<lparr>Node = \<lparr>Pos = 10, End = 11, kind = OtherNode, payload = ''p''\<rparr>, Capture = []\<rparr>"


text \<open>
  Two files for the detector: in the first, the second comment group holds a do-not-edit
  phrase and then a generation phrase, in other letter case; in the second, the two
  phrases are in different comment groups.
\<close>

definition generatedFile :: astFile where
  "generatedFile =
     \<lparr>Name = ''p'',
      Comments = [[''// Package p holds tables.''],
                  [''// DO NOT EDIT.'', ''// This file was Generated By mktables.'']],
      Decls = []\<rparr>"

definition splitFile :: astFile where
  "splitFile =
     \<lparr>Name = ''p'',
      Comments = [[''// Code generated by mktables.''], [''// do not edit'']],
      Decls = []\<rparr>"

text \<open>
  The conditions of the specification under which a file is not scanned. A file is
  skipped by the eligibility prefilter when a heat-map filename set is configured and
  the base name of the file is not in it, or when the test-file condition is set and
  differs from whether the name ends in \<open>_test.go\<close>. A call returns early when the
  prefilter skips the file, the file cannot be read, its bytes do not parse, or the
  autogeneration condition is set and differs from what the detector finds.
\<close>

definition heatmapSkips :: "env \<Rightarrow> worker \<Rightarrow> string \<Rightarrow> bool" where
  "heatmapSkips env w fname =
     (case heatmapFilenameSet w of
        None \<Rightarrow> False
      | Some names \<Rightarrow> Base env fname \<notin> names)"

definition testCondSkips :: "worker \<Rightarrow> string \<Rightarrow> bool" where
  "testCondSkips w fname =
     (case testCond (filterHints w) of
        bool3unset \<Rightarrow> False
      | bool3true \<Rightarrow> \<not> HasSuffix fname ''_test.go''
      | bool3false \<Rightarrow> HasSuffix fname ''_test.go'')"

definition autogenCondSkips :: "env \<Rightarrow> worker \<Rightarrow> astFile \<Rightarrow> bool" where
  "autogenCondSkips env w rootFile =
     (case autogenCond (filterHints w) of
        bool3unset \<Rightarrow> False
      | bool3true \<Rightarrow> \<not> isAutogenFile env rootFile
      | bool3false \<Rightarrow> isAutogenFile env rootFile)"

definition returnsEarly :: "env \<Rightarrow> worker \<Rightarrow> string \<Rightarrow> bool" where
  "returnsEarly env w fname =
     (heatmapSkips env w fname \<or> testCondSkips w fname \<or>
      (case ReadFile env fname of
         Inl err \<Rightarrow> True
       | Inr d \<Rightarrow>
          (case parseFile env w (NewFileSet env) fname d of
             (fs, Inl err) \<Rightarrow> True
           | (fs, Inr rootFile) \<Rightarrow> autogenCondSkips env w rootFile)))"

text \<open>
  Two calls of grepFile agree up to the file set when they read the same files, both
  panic or both return, with the same count and the same error, and leave workers
  that differ in the field \<open>fset\<close> at most.
\<close>

definition agreeUpToFset :: "grepResult \<times> string list \<Rightarrow> grepResult \<times> string list \<Rightarrow> bool" where
  "agreeUpToFset r r' =
     (snd r = snd r' \<and>
      (case (fst r, fst r') of
         (Returned c e v, Returned c' e' v') \<Rightarrow> c = c' \<and> e = e' \<and> v' = v\<lparr>fset := fset v'\<rparr>
       | (Panicked, Panicked) \<Rightarrow> True
       | _ \<Rightarrow> False))"

text \<open>
  Offsets of a match record. \<open>offsetsValid d mt\<close> is the invariant of the
  specification: the offsets of the match, and those of each of its captured nodes, are
  ordered and lie within the bytes \<open>d\<close>. \<open>orderedHit fs h\<close>: by the position table
  \<open>fs\<close>, the node of the hit \<open>h\<close> and each node it captures do not end before they start.
\<close>

definition offsetsValid :: "bytes \<Rightarrow> match \<Rightarrow> bool" where
  "offsetsValid d mt =
     (0 \<le> startOffset mt \<and> startOffset mt \<le> endOffset mt \<and> endOffset mt \<le> int (length d) \<and>
      (\<forall>cn \<in> set (capture mt).
         0 \<le> startOffset_c cn \<and> startOffset_c cn \<le> endOffset_c cn \<and>
         endOffset_c cn \<le> int (length d)))"

definition orderedHit :: "fileSet \<Rightarrow> matchData \<Rightarrow> bool" where
  "orderedHit fs h =
     (Offset (fs (Pos (Node h))) \<le> Offset (fs (End (Node h))) \<and>
      (\<forall>c \<in> set (Capture h). Offset (fs (Pos (capNode c))) \<le> Offset (fs (End (capNode c)))))"

section \<open>Properties\<close>

subsection \<open>The two loops of initMatchText\<close>

lemma expandEnd_Some:
  "expandEnd d e = Some e' \<Longrightarrow>
     0 \<le> e \<and> e \<le> e' \<and> (e \<le> sliceLen d \<longrightarrow> e' \<le> sliceLen d) \<and>
     (sliceLen d \<le> e \<longrightarrow> e' = e) \<and>
     (e' < sliceLen d \<longrightarrow> isNewline (elems d ! nat e')) \<and>
     (\<forall>j. e \<le> j \<and> j < e' \<longrightarrow> \<not> isNewline (elems d ! nat j))"
proof (induction d e rule: expandEnd.induct)
  case (1 d e)
  show ?case
  proof (cases "e < sliceLen d")
    case False
    with "1.prems" show ?thesis by (auto simp: expandEnd.simps[of d e] sliceLen_def)
  next
    case lt: True
    show ?thesis
    proof (cases "0 \<le> e")
      case False
      with lt "1.prems" show ?thesis by (simp add: index_def expandEnd.simps[of d e])
    next
      case nonneg: True
      then have ix: "index d e = Some (elems d ! nat e)" using lt by (simp add: index_def)
      show ?thesis
      proof (cases "isNewline (elems d ! nat e)")
        case True
        with lt ix nonneg "1.prems" show ?thesis by (auto simp: expandEnd.simps[of d e])
      next
        case nn: False
        with lt ix "1.prems" have rec: "expandEnd d (e + 1) = Some e'"
          by (simp add: expandEnd.simps[of d e])
        have step: "\<And>j. e \<le> j \<Longrightarrow> j = e \<or> e + 1 \<le> j" by arith
        from "1.IH"[OF lt ix nn rec] lt nonneg nn show ?thesis
          by (auto dest: step)
      qed
    qed
  qed
qed

lemma expandStart_nonpos: "start \<le> 0 \<Longrightarrow> expandStart d sp start = Some start"
  by (simp add: expandStart.simps)

lemma expandStart_Some:
  "expandStart d sp start = Some s' \<Longrightarrow> 0 < start \<Longrightarrow> start \<le> sp \<Longrightarrow>
     start < sliceLen d \<and> 0 \<le> s' \<and> s' \<le> sp \<and>
     (if start = sp \<and> isNewline (elems d ! nat sp) then s' = sp
      else (\<forall>j. 1 \<le> j \<and> s' \<le> j \<and> j \<le> start \<longrightarrow> \<not> isNewline (elems d ! nat j)) \<and>
           (s' \<noteq> 0 \<longrightarrow> 2 \<le> s' \<and> s' \<le> start + 1 \<and> isNewline (elems d ! nat (s' - 1))))"
proof (induction d sp start rule: expandStart.induct)
  case (1 d sp start)
  note unfold = expandStart.simps[of d sp start]
  from "1.prems" have lt: "start < sliceLen d"
    by (auto simp: unfold index_def split: if_splits)
  with "1.prems" have ix: "index d start = Some (elems d ! nat start)" by (simp add: index_def)
  show ?case
  proof (cases "isNewline (elems d ! nat start)")
    case True
    with "1.prems" ix lt show ?thesis by (auto simp: unfold split: if_splits)
  next
    case nn: False
    with "1.prems" ix have rec: "expandStart d sp (start - 1) = Some s'" by (simp add: unfold)
    have step: "\<And>j. j \<le> start \<Longrightarrow> j \<le> start - 1 \<or> j = start" by arith
    show ?thesis
    proof (cases "start - 1 > 0")
      case False
      with rec have "s' = start - 1" by (simp add: expandStart_nonpos)
      with False "1.prems"(2,3) nn lt show ?thesis
        by (auto dest: step)
    next
      case True
      from "1.prems" have le: "start - 1 \<le> sp" by simp
      note IH = "1.IH"[OF _ ix nn rec True le]
      from "1.prems" have ne: "start - 1 \<noteq> sp" "start - 1 < sp" by auto
      from IH nn lt "1.prems"(2,3) ne show ?thesis
        by (auto dest: step)
    qed
  qed
qed

subsection \<open>Slices and the materialised text\<close>

lemma slice_Some_iff:
  "slice s lo hi = Some t \<longleftrightarrow>
     0 \<le> lo \<and> lo \<le> hi \<and> hi \<le> sliceCap s \<and>
     t = take (nat (hi - lo)) (drop (nat lo) (elems s @ spare s))"
  by (auto simp: slice_def)

lemma slice_length: "slice s lo hi = Some t \<Longrightarrow> int (length t) = hi - lo"
  by (auto simp: slice_Some_iff sliceCap_def)

lemma within_len:
  assumes "0 \<le> lo" "hi \<le> sliceLen s"
  shows "take (nat (hi - lo)) (drop (nat lo) (elems s @ spare s)) =
         take (nat (hi - lo)) (drop (nat lo) (elems s))"
  using assms by (simp add: sliceLen_def)

lemma initMatchText_plain:
  assumes "\<not> needMatchLine w" "initMatchText w m startPos endPos = Some m'"
  shows "0 \<le> startPos \<and> startPos \<le> endPos \<and> endPos \<le> sliceCap (data w) \<and>
         m' = m\<lparr>text_m := take (nat (endPos - startPos))
                            (drop (nat startPos) (elems (data w) @ spare (data w))),
                matchStartOffset := 0, matchLength := endPos - startPos\<rparr>"
proof -
  from assms obtain t where t: "slice (data w) startPos endPos = Some t"
    and m': "m' = m\<lparr>text_m := t, matchStartOffset := 0, matchLength := int (length t)\<rparr>"
    by (auto simp: initMatchText_def split: option.splits)
  from t slice_length[OF t] m' show ?thesis by (simp add: slice_Some_iff)
qed

lemma take_drop_sub:
  fixes lo a b hi :: nat
  assumes "lo \<le> a" "a \<le> b" "b \<le> hi"
  shows "take (b - a) (drop (a - lo) (take (hi - lo) (drop lo xs))) = take (b - a) (drop a xs)"
  using assms by (simp add: drop_take min_def)

lemma sub_slice:
  assumes "slice s lo hi = Some t" "lo \<le> a" "a \<le> b" "b \<le> hi"
  shows "take (nat (b - a)) (drop (nat (a - lo)) t) =
         take (nat (b - a)) (drop (nat a) (elems s @ spare s))"
proof -
  from assms(1) have b: "0 \<le> lo" "lo \<le> hi"
    and t: "t = take (nat (hi - lo)) (drop (nat lo) (elems s @ spare s))"
    by (simp_all add: slice_Some_iff)
  have n: "nat (b - a) = nat b - nat a" "nat (a - lo) = nat a - nat lo"
    "nat (hi - lo) = nat hi - nat lo" "nat lo \<le> nat a" "nat a \<le> nat b" "nat b \<le> nat hi"
    using b assms(2-) by simp_all
  show ?thesis unfolding t n(1-3) by (rule take_drop_sub[OF n(4-6)])
qed

lemma initMatchText_expand:
  assumes "needMatchLine w" "initMatchText w m startPos endPos = Some m'"
  shows "\<exists>s e t. expandStart (data w) startPos startPos = Some s \<and>
               expandEnd (data w) endPos = Some e \<and>
               slice (data w) s e = Some t \<and>
               m' = m\<lparr>text_m := t, matchStartOffset := startPos - s,
                      matchLength := endPos - startPos\<rparr>"
proof -
  from assms obtain s where s: "expandStart (data w) startPos startPos = Some s"
    by (cases "expandStart (data w) startPos startPos") (simp_all add: initMatchText_def)
  from assms s obtain e where e: "expandEnd (data w) endPos = Some e"
    by (cases "expandEnd (data w) endPos") (simp_all add: initMatchText_def)
  from assms s e obtain t where t: "slice (data w) s e = Some t"
    by (cases "slice (data w) s e") (simp_all add: initMatchText_def)
  from assms s e t have "m' = m\<lparr>text_m := t, matchStartOffset := startPos - s,
                      matchLength := endPos - startPos\<rparr>"
    by (simp add: initMatchText_def)
  with s e t show ?thesis by blast
qed

lemma initMatchText_fields:
  assumes "initMatchText w m startPos endPos = Some m'"
  shows "filename_m m' = filename_m m \<and> line m' = line m \<and> startOffset m' = startOffset m \<and>
         endOffset m' = endOffset m \<and> capture m' = capture m"
proof (cases "needMatchLine w")
  case False
  from initMatchText_plain[OF False assms] show ?thesis by simp
next
  case True
  from initMatchText_expand[OF True assms] show ?thesis by auto
qed

lemma initMatchText_cong:
  "needMatchLine w = needMatchLine v \<Longrightarrow> data w = data v \<Longrightarrow>
     initMatchText w m startPos endPos = initMatchText v m startPos endPos"
  by (simp add: initMatchText_def cong: option.case_cong)

lemma pendingMatch_fields:
  "startOffset (pendingMatch w d) = Offset (fset w (Pos (Node d))) \<and>
   endOffset (pendingMatch w d) = Offset (fset w (End (Node d))) \<and>
   filename_m (pendingMatch w d) = filename w \<and>
   line (pendingMatch w d) = Line (fset w (Pos (Node d))) \<and>
   capture (pendingMatch w d) =
     (if needCapture w
      then map (\<lambda>c. \<lparr>startOffset_c = Offset (fset w (Pos (capNode c))),
                       endOffset_c = Offset (fset w (End (capNode c))),
                       data_c = c\<rparr>) (Capture d)
      else [])"
  by (simp add: pendingMatch_def initMatchCapture_def Let_def)

lemma accept_iff:
  "accept env w d =
     (Op (filterExpr w) = OpNop \<or>
      applyFilter env \<lparr>w_ctx = w, m_ctx = d\<rparr> (filterExpr w) (Node d))"
  by (simp add: accept_def evalAccept_def)

lemma visitCallback_reject: "\<not> accept env w d \<Longrightarrow> visitCallback env w d = Some w"
  by (simp add: visitCallback_def)

lemma visitCallback_count:
  "accept env w d \<Longrightarrow> countMode w \<Longrightarrow> visitCallback env w d = Some (w\<lparr>n_w := n_w w + 1\<rparr>)"
  by (simp add: visitCallback_def Let_def)

lemma visitCallback_full:
  assumes "accept env w d" "\<not> countMode w"
  shows "visitCallback env w d =
     (case initMatchText w (pendingMatch w d)
             (Offset (fset w (Pos (Node d)))) (Offset (fset w (End (Node d)))) of
        None \<Rightarrow> None
      | Some m2 \<Rightarrow> Some (w\<lparr>n_w := n_w w + 1, matches := matches w @ [m2]\<rparr>))"
proof -
  have c: "initMatchText (w\<lparr>n_w := n_w w + 1\<rparr>) = initMatchText w"
    by (intro ext initMatchText_cong) simp_all
  have ic: "initMatchCapture (w\<lparr>n_w := n_w w + 1\<rparr>) = initMatchCapture w"
    by (intro ext) (simp add: initMatchCapture_def)
  from assms show ?thesis
    by (simp add: visitCallback_def pendingMatch_def Let_def c ic split: option.splits)
qed

lemma visitCallback_appended:
  assumes "accept env w d" "\<not> countMode w" "visitCallback env w d = Some w'"
  shows "\<exists>mt. initMatchText w (pendingMatch w d)
                 (Offset (fset w (Pos (Node d)))) (Offset (fset w (End (Node d)))) = Some mt \<and>
              w' = w\<lparr>n_w := n_w w + 1, matches := matches w @ [mt]\<rparr>"
  using assms(3) unfolding visitCallback_full[OF assms(1,2)]
  by (simp split: option.splits)


subsection \<open>Text of a match without line expansion\<close>

text \<open>
  Claim C2. When a hit is accepted and turned into a match record with line expansion
  off (\<open>needMatchLine\<close> false), the record carries the offsets that the position table
  gives for the start and the end of the matched node, its text is exactly the bytes
  that the slice expression yields between these two offsets, which are the bytes of the file
  between them whenever the end offset is not beyond the length of the file, the
  offset of the matched sub-range is 0 and the length of the sub-range is the length of
  the text.
\<close>

theorem visit_text_is_raw_bytes:
  assumes "accept env w d" and "\<not> countMode w" and "\<not> needMatchLine w"
    and "visitCallback env w d = Some w'"
  shows "\<exists>mt. matches w' = matches w @ [mt] \<and>
           startOffset mt = Offset (fset w (Pos (Node d))) \<and>
           endOffset mt = Offset (fset w (End (Node d))) \<and>
           text_m mt = take (nat (endOffset mt - startOffset mt))
                         (drop (nat (startOffset mt)) (elems (data w) @ spare (data w))) \<and>
           (endOffset mt \<le> sliceLen (data w) \<longrightarrow>
              text_m mt = take (nat (endOffset mt - startOffset mt))
                            (drop (nat (startOffset mt)) (elems (data w)))) \<and>
           matchStartOffset mt = 0 \<and>
           matchLength mt = int (length (text_m mt))"
proof -
  define so where "so = Offset (fset w (Pos (Node d)))"
  define eo where "eo = Offset (fset w (End (Node d)))"
  from visitCallback_appended[OF assms(1,2,4)] obtain mt where
    i: "initMatchText w (pendingMatch w d) so eo = Some mt"
    and w': "w' = w\<lparr>n_w := n_w w + 1, matches := matches w @ [mt]\<rparr>"
    unfolding so_def eo_def by blast
  note P = initMatchText_plain[OF assms(3) i]
  note F = pendingMatch_fields[of w d, folded so_def eo_def]
  from P have b: "0 \<le> so" "so \<le> eo" "eo \<le> sliceCap (data w)" by simp_all
  from P have mt: "mt = (pendingMatch w d)\<lparr>text_m := take (nat (eo - so))
                    (drop (nat so) (elems (data w) @ spare (data w))),
                matchStartOffset := 0, matchLength := eo - so\<rparr>" by simp
  have f: "startOffset mt = so" "endOffset mt = eo" "matchStartOffset mt = 0"
    "text_m mt = take (nat (eo - so)) (drop (nat so) (elems (data w) @ spare (data w)))"
    "matchLength mt = eo - so"
    by (simp_all add: mt F)
  from b have l: "int (length (text_m mt)) = eo - so" by (simp add: f(4) sliceCap_def)
  have g1: "matches w' = matches w @ [mt]" by (simp add: w')
  have g4: "text_m mt = take (nat (endOffset mt - startOffset mt))
                         (drop (nat (startOffset mt)) (elems (data w) @ spare (data w)))"
    unfolding f(1) f(2) by (rule f(4))
  have g5: "text_m mt = take (nat (endOffset mt - startOffset mt))
                            (drop (nat (startOffset mt)) (elems (data w)))"
    if "endOffset mt \<le> sliceLen (data w)"
  proof -
    from that have "eo \<le> sliceLen (data w)" by (simp only: f(2))
    with b(1) have "take (nat (eo - so)) (drop (nat so) (elems (data w) @ spare (data w))) =
        take (nat (eo - so)) (drop (nat so) (elems (data w)))" by (rule within_len)
    then show ?thesis unfolding f(1) f(2) f(4) .
  qed
  have g7: "matchLength mt = int (length (text_m mt))" by (simp only: f(5) l)
  show ?thesis
  proof (intro exI[of _ mt] conjI impI)
    show "matches w' = matches w @ [mt]" by (rule g1)
    show "startOffset mt = Offset (fset w (Pos (Node d)))" by (simp only: f(1) so_def)
    show "endOffset mt = Offset (fset w (End (Node d)))" by (simp only: f(2) eo_def)
    show "text_m mt = take (nat (endOffset mt - startOffset mt))
                         (drop (nat (startOffset mt)) (elems (data w) @ spare (data w)))"
      by (rule g4)
    show "text_m mt = take (nat (endOffset mt - startOffset mt))
                            (drop (nat (startOffset mt)) (elems (data w)))"
      if "endOffset mt \<le> sliceLen (data w)" using that by (rule g5)
    show "matchStartOffset mt = 0" by (rule f(3))
    show "matchLength mt = int (length (text_m mt))" by (rule g7)
  qed
qed

theorem visit_text_is_raw_bytes_witness:
  "accept exampleEnv exampleWorker exampleHit \<and> \<not> countMode exampleWorker \<and>
   \<not> needMatchLine exampleWorker \<and>
   (\<exists>w'. visitCallback exampleEnv exampleWorker exampleHit = Some w' \<and>
     (\<exists>mt. matches w' = matches exampleWorker @ [mt] \<and>
        startOffset mt = 18 \<and> endOffset mt = 23 \<and> endOffset mt \<le> sliceLen (data exampleWorker) \<and>
        text_m mt = ''1 + 2'' \<and>
        text_m mt = take (nat (endOffset mt - startOffset mt))
                      (drop (nat (startOffset mt)) (elems (data exampleWorker))) \<and>
        matchStartOffset mt = 0 \<and> matchLength mt = int (length (text_m mt))))"
proof -
  have a: "accept exampleEnv exampleWorker exampleHit"
    by (simp add: accept_iff exampleWorker_def zeroWorker_def)
  have c: "\<not> countMode exampleWorker" and l: "\<not> needMatchLine exampleWorker"
    by (simp_all add: exampleWorker_def zeroWorker_def)
  obtain w' where v: "visitCallback exampleEnv exampleWorker exampleHit = Some w'"
    by (simp add: visitCallback_def accept_iff exampleWorker_def zeroWorker_def exampleHit_def
        exprNode_def exampleFset_def exampleData_def exampleBytes_def initMatchText_def
        slice_def sliceCap_def Let_def)
  from visit_text_is_raw_bytes[OF a c l v] obtain mt where
    mt: "matches w' = matches exampleWorker @ [mt]"
      "startOffset mt = Offset (fset exampleWorker (Pos (Node exampleHit)))"
      "endOffset mt = Offset (fset exampleWorker (End (Node exampleHit)))"
      "endOffset mt \<le> sliceLen (data exampleWorker) \<longrightarrow>
         text_m mt = take (nat (endOffset mt - startOffset mt))
                      (drop (nat (startOffset mt)) (elems (data exampleWorker)))"
      "matchStartOffset mt = 0" "matchLength mt = int (length (text_m mt))"
    by blast
  have so: "startOffset mt = 18" and eo: "endOffset mt = 23"
    using mt(2,3)
    by (simp_all add: exampleWorker_def zeroWorker_def exampleHit_def exprNode_def exampleFset_def)
  have le: "endOffset mt \<le> sliceLen (data exampleWorker)"
    by (simp add: eo exampleWorker_def exampleData_def exampleBytes_def sliceLen_def)
  with mt(4) have t: "text_m mt = take (nat (endOffset mt - startOffset mt))
                      (drop (nat (startOffset mt)) (elems (data exampleWorker)))" by simp
  then have "text_m mt = ''1 + 2''"
    by (simp add: so eo exampleWorker_def zeroWorker_def exampleData_def exampleBytes_def)
  with a c l v mt(1,5,6) so eo le t show ?thesis by blast
qed

subsection \<open>Text of a match with line expansion\<close>

text \<open>
  What initMatchText does with line expansion on, for a match that ends within the
  file, when it succeeds: the text is the slice of the file from an expanded start \<open>s\<close>
  to an expanded end \<open>e\<close>; the offset of the matched sub-range is the original start
  minus \<open>s\<close>, its length the original end minus the original start; \<open>e\<close> is the nearest
  newline at or after the original end, or the length of the file; when the byte at the
  original start is itself a newline the start is not moved; otherwise, unless the only
  newline before the original start is byte 0 of the file, \<open>s\<close> is where the line of the
  original start begins; the matched bytes stand unchanged in the text.
\<close>

lemma initMatchText_expansion:
  assumes "needMatchLine w" and "initMatchText w m startPos endPos = Some m'"
    and inside: "endPos \<le> sliceLen (data w)"
  shows "\<exists>s e. slice (data w) s e = Some (text_m m') \<and>
           matchStartOffset m' = startPos - s \<and>
           matchLength m' = endPos - startPos \<and>
           lineEnd (elems (data w)) endPos e \<and>
           (if 0 < startPos \<and> isNewline (elems (data w) ! nat startPos) then s = startPos
            else (startPos = 0 \<or> \<not> isNewline (elems (data w) ! 0) \<or>
                  (\<exists>j \<in> set [1..startPos - 1]. isNewline (elems (data w) ! nat j)))
                 \<longrightarrow> lineStart (elems (data w)) startPos s) \<and>
           (startPos \<le> endPos \<longrightarrow>
              take (nat (matchLength m')) (drop (nat (matchStartOffset m')) (text_m m')) =
              take (nat (endPos - startPos)) (drop (nat startPos) (elems (data w))))"
proof -
  from initMatchText_expand[OF assms(1,2)] obtain s e t0 where
    s: "expandStart (data w) startPos startPos = Some s" and
    e: "expandEnd (data w) endPos = Some e" and
    t0: "slice (data w) s e = Some t0" and
    m': "m' = m\<lparr>text_m := t0, matchStartOffset := startPos - s,
                      matchLength := endPos - startPos\<rparr>" by blast
  from m' have off: "matchStartOffset m' = startPos - s"
    and len: "matchLength m' = endPos - startPos" and "text_m m' = t0" by simp_all
  with t0 have t: "slice (data w) s e = Some (text_m m')" by simp
  from t have sb: "0 \<le> s" "s \<le> e" by (simp_all add: slice_Some_iff)
  note E = expandEnd_Some[OF e]
  have le: "lineEnd (elems (data w)) endPos e"
    using E sb inside by (auto simp: lineEnd_def sliceLen_def)
  have s_le: "s \<le> startPos"
  proof (cases "0 < startPos")
    case True from expandStart_Some[OF s True] show ?thesis by simp
  next
    case False with s show ?thesis by (simp add: expandStart_nonpos)
  qed
  have st: "if 0 < startPos \<and> isNewline (elems (data w) ! nat startPos) then s = startPos
            else (startPos = 0 \<or> \<not> isNewline (elems (data w) ! 0) \<or>
                  (\<exists>j \<in> set [1..startPos - 1]. isNewline (elems (data w) ! nat j)))
                 \<longrightarrow> lineStart (elems (data w)) startPos s"
  proof (cases "0 < startPos")
    case False
    with s have "s = startPos" by (simp add: expandStart_nonpos)
    with sb False show ?thesis by (simp add: lineStart_def)
  next
    case True
    note S = expandStart_Some[OF s True order_refl]
    show ?thesis
    proof (cases "isNewline (elems (data w) ! nat startPos)")
      case True with S \<open>0 < startPos\<close> show ?thesis by simp
    next
      case nn: False
      with S have all: "\<forall>j. 1 \<le> j \<and> s \<le> j \<and> j \<le> startPos \<longrightarrow> \<not> isNewline (elems (data w) ! nat j)"
        and nz: "s \<noteq> 0 \<longrightarrow> isNewline (elems (data w) ! nat (s - 1))" by simp_all
      have "lineStart (elems (data w)) startPos s"
        if c: "\<not> isNewline (elems (data w) ! 0) \<or> (\<exists>j \<in> set [1..startPos - 1]. isNewline (elems (data w) ! nat j))"
      proof -
        have "\<not> isNewline (elems (data w) ! nat j)" if j: "s \<le> j" "j < startPos" for j
        proof (cases "1 \<le> j")
          case True with all j show ?thesis by simp
        next
          case False
          with j sb have j0: "j = 0" "s = 0" by simp_all
          from c show ?thesis
          proof
            assume "\<not> isNewline (elems (data w) ! 0)" with j0 show ?thesis by simp
          next
            assume "\<exists>j \<in> set [1..startPos - 1]. isNewline (elems (data w) ! nat j)"
            then obtain k where "1 \<le> k" "k < startPos" "isNewline (elems (data w) ! nat k)" by auto
            with all j0 show ?thesis by auto
          qed
        qed
        with sb s_le nz show ?thesis by (auto simp: lineStart_def)
      qed
      with nn True show ?thesis by auto
    qed
  qed
  have pres: "take (nat (matchLength m')) (drop (nat (matchStartOffset m')) (text_m m')) =
              take (nat (endPos - startPos)) (drop (nat startPos) (elems (data w)))"
    if "startPos \<le> endPos"
  proof -
    have "endPos \<le> e" using E by simp
    from sub_slice[OF t s_le that this]
    have "take (nat (endPos - startPos)) (drop (nat (startPos - s)) (text_m m')) =
          take (nat (endPos - startPos)) (drop (nat startPos) (elems (data w) @ spare (data w)))" .
    moreover have "0 \<le> startPos" using sb s_le by simp
    ultimately show ?thesis using within_len[OF _ inside, of startPos] by (simp add: off len)
  qed
  from t off len le st pres show ?thesis by blast
qed

text \<open>
  Claim C3. With line expansion on, the start of the text of a match is to be the byte
  right after the nearest newline before the match (byte 0 of the file when there is
  none), and the offset of the matched sub-range the distance from there to the match.
  The code departs from this on a file that begins with a newline, when no other
  newline lies before the match: the first loop, \<^verbatim>\<open>for start > 0\<close>, ends at offset 0
  without looking at the byte there. In the file made of a newline, \<open>package p\<close> and a
  newline, the hit on \<open>p\<close> (offsets 9 to 10) is on the line that starts at offset 1, yet
  its text starts at offset 0, with that newline, and the sub-range offset is 9, not 8.
\<close>

theorem line_expansion_keeps_leading_newline:
  "visitCallback exampleEnv leadingNewlineWorker leadingNewlineHit =
     Some (leadingNewlineWorker
             \<lparr>n_w := 1,
              matches :=
                [\<lparr>filename_m = ''y.go'', line = 2, startOffset = 9, endOffset = 10,
                  capture = [], text_m = ''\<newline>package p'', matchStartOffset = 9,
                  matchLength = 1\<rparr>]\<rparr>) \<and>
   isNewline (elems (data leadingNewlineWorker) ! 0) \<and>
   slice (data leadingNewlineWorker) 1 10 = Some ''package p''"
  by (simp add: visitCallback_def accept_iff leadingNewlineWorker_def leadingNewlineHit_def
      leadingNewlineFset_def leadingNewlineData_def zeroWorker_def initMatchText_def
      slice_def sliceCap_def sliceLen_def index_def isNewline_def
      expandStart.simps expandEnd.simps Let_def)

text \<open>
  The guard \<^verbatim>\<open>if start != startPos\<close> at work: a match that starts on a newline byte keeps
  its start.
\<close>

lemma initMatchText_start_on_newline:
  "initMatchText (zeroWorker\<lparr>needMatchLine := True,
                              data := \<lparr>elems = ''ab\<newline>cd'', spare = []\<rparr>\<rparr>) zeroMatch 2 5 =
     Some (zeroMatch\<lparr>text_m := ''\<newline>cd'', matchStartOffset := 0, matchLength := 3\<rparr>)"
  by (simp add: initMatchText_def zeroWorker_def index_def slice_def sliceCap_def sliceLen_def
      isNewline_def expandStart.simps expandEnd.simps)

subsection \<open>Autogeneration detection\<close>

lemma isAutogenCommentLoop_flags:
  "\<not> (generated \<and> doNotEdit) \<Longrightarrow>
   isAutogenCommentLoop env generated doNotEdit cs =
     ((generated \<or> (\<exists>c \<in> set cs. hasGenerationPhrase env c)) \<and>
      (doNotEdit \<or> (\<exists>c \<in> set cs. hasDoNotEditPhrase env c)))"
proof (induction cs arbitrary: generated doNotEdit)
  case Nil
  then show ?case by simp
next
  case (Cons c cs)
  show ?case
  proof (cases "(generated \<or> hasGenerationPhrase env c) \<and> (doNotEdit \<or> hasDoNotEditPhrase env c)")
    case True
    then show ?thesis
      by (auto simp: Let_def hasGenerationPhrase_def hasDoNotEditPhrase_def)
  next
    case False
    then have "isAutogenCommentLoop env generated doNotEdit (c # cs) =
       isAutogenCommentLoop env (generated \<or> hasGenerationPhrase env c)
         (doNotEdit \<or> hasDoNotEditPhrase env c) cs"
      by (auto simp: Let_def hasGenerationPhrase_def hasDoNotEditPhrase_def)
    also have "\<dots> = (((generated \<or> hasGenerationPhrase env c) \<or> (\<exists>c \<in> set cs. hasGenerationPhrase env c)) \<and>
      ((doNotEdit \<or> hasDoNotEditPhrase env c) \<or> (\<exists>c \<in> set cs. hasDoNotEditPhrase env c)))"
      using False by (intro Cons.IH) simp
    finally show ?thesis by auto
  qed
qed

lemma isAutogenComment_spec: "isAutogenComment env g = specGenerationMarker env g"
  by (simp add: isAutogenComment_def specGenerationMarker_def isAutogenCommentLoop_flags)

lemma isAutogenFileLoop_ex:
  "isAutogenFileLoop env gs = (\<exists>g \<in> set gs. isAutogenComment env g)"
  by (induction gs) auto

text \<open>
  Claim C4. The detector flags a parsed file exactly when one of its comment groups holds
  both a code-generation phrase and a do-not-edit phrase, each looked for in the
  lower-cased text of a comment, on any lines of the group and in any order. So a file
  with only one kind of phrase, or with the two kinds in different groups only, is not
  flagged.
\<close>

theorem isAutogenFile_iff_spec: "isAutogenFile env f = specAutogenFile env f"
  by (simp add: isAutogenFile_def specAutogenFile_def isAutogenFileLoop_ex isAutogenComment_spec)

lemma ToLower_example: "ToLower exampleEnv = toLowerASCII"
  by (simp add: exampleEnv_def)

theorem isAutogenFile_iff_spec_witness:
  "isAutogenFile exampleEnv generatedFile \<and> specAutogenFile exampleEnv generatedFile \<and>
   \<not> isAutogenFile exampleEnv splitFile \<and> \<not> specAutogenFile exampleEnv splitFile"
proof -
  have l: "toLowerASCII ''// Package p holds tables.'' = ''// package p holds tables.''"
      "toLowerASCII ''// DO NOT EDIT.'' = ''// do not edit.''"
      "toLowerASCII ''// This file was Generated By mktables.'' = ''// this file was generated by mktables.''"
      "toLowerASCII ''// Code generated by mktables.'' = ''// code generated by mktables.''"
      "toLowerASCII ''// do not edit'' = ''// do not edit''"
    by code_simp+
  have g: "specAutogenFile exampleEnv generatedFile"
    by (simp add: specAutogenFile_def specGenerationMarker_def hasGenerationPhrase_def
        hasDoNotEditPhrase_def generatedFile_def ToLower_example l Contains_def sublist_code)
  have s: "\<not> specAutogenFile exampleEnv splitFile"
    by (simp add: specAutogenFile_def specGenerationMarker_def hasGenerationPhrase_def
        hasDoNotEditPhrase_def splitFile_def ToLower_example l Contains_def sublist_code)
  from g s show ?thesis
    using isAutogenFile_iff_spec[of exampleEnv generatedFile]
      isAutogenFile_iff_spec[of exampleEnv splitFile] by simp
qed

subsection \<open>Text of a node\<close>

text \<open>
  Claim C9, as amended. With \<open>from\<close> and \<open>to\<close> the offsets that the position table
  gives for the start and the end of the node: an empty node slice gives no bytes; any
  other node whose two offsets both lie in \<open>[0, len(bytes))\<close> gives the bytes of the file
  from \<open>from\<close> to \<open>to\<close> when \<open>from\<close> is not after \<open>to\<close>, and a panic of the slice
  expression when it is; with an offset outside that range a comment gives its stored
  text, and any other node gives what the printer writes, a failure of the printer being
  a panic.
\<close>

theorem nodeText_paths:
  "let from = Offset (fset w (Pos nd));
       to = Offset (fset w (End nd));
       len = sliceLen (data w);
       inRange = ((0 \<le> from \<and> from < len) \<and> (0 \<le> to \<and> to < len))
   in (IsEmptyNodeSlice nd \<longrightarrow> nodeText env w nd = Some []) \<and>
      (\<not> IsEmptyNodeSlice nd \<and> inRange \<and> from \<le> to \<longrightarrow>
         nodeText env w nd = Some (take (nat (to - from)) (drop (nat from) (elems (data w))))) \<and>
      (\<not> IsEmptyNodeSlice nd \<and> inRange \<and> to < from \<longrightarrow> nodeText env w nd = None) \<and>
      (\<not> IsEmptyNodeSlice nd \<and> \<not> inRange \<longrightarrow>
         (\<forall>t. kind nd = Comment t \<longrightarrow> nodeText env w nd = Some t) \<and>
         (kind nd = OtherNode \<longrightarrow>
            (\<forall>err. Fprint env (fset w) nd = Inl err \<longrightarrow> nodeText env w nd = None) \<and>
            (\<forall>buf. Fprint env (fset w) nd = Inr buf \<longrightarrow> nodeText env w nd = Some buf)))"
proof -
  have inside: "take (nat (t - f)) (drop (nat f) (elems (data w) @ spare (data w))) =
                take (nat (t - f)) (drop (nat f) (elems (data w)))"
    if "0 \<le> f" "t < sliceLen (data w)" for f t
    using within_len[of f t "data w"] that by simp
  show ?thesis
    by (auto simp: nodeText_def slice_def Let_def IsEmptyNodeSlice_def sliceCap_def sliceLen_def
        inside[unfolded sliceLen_def])
qed

theorem nodeText_paths_witness:
  "\<not> IsEmptyNodeSlice exprNode \<and>
   Offset (fset exampleWorker (Pos exprNode)) = 18 \<and>
   Offset (fset exampleWorker (End exprNode)) = 23 \<and>
   sliceLen (data exampleWorker) = 24 \<and>
   nodeText exampleEnv exampleWorker exprNode = Some ''1 + 2'' \<and>
   nodeText exampleEnv exampleWorker \<lparr>Pos = 0, End = 0, kind = EmptyNodeSlice, payload = []\<rparr> = Some [] \<and>
   nodeText exampleEnv exampleWorker \<lparr>Pos = 21, End = 25, kind = Comment ''// virtual'', payload = []\<rparr>
     = Some ''// virtual'' \<and>
   nodeText exampleEnv exampleWorker \<lparr>Pos = 11, End = 25, kind = OtherNode, payload = ''var x = 1 + 2;''\<rparr>
     = Some ''var x = 1 + 2;''"
proof -
  have f: "Offset (fset exampleWorker (Pos exprNode)) = 18"
      "Offset (fset exampleWorker (End exprNode)) = 23"
      "sliceLen (data exampleWorker) = 24" "\<not> IsEmptyNodeSlice exprNode"
    by (simp_all add: exampleWorker_def zeroWorker_def exampleFset_def exampleData_def exampleBytes_def sliceLen_def
        exprNode_def IsEmptyNodeSlice_def)
  have d: "take 5 (drop 18 (elems (data exampleWorker))) = ''1 + 2''"
    by (simp add: exampleWorker_def exampleData_def exampleBytes_def sliceLen_def)
  have 1: "nodeText exampleEnv exampleWorker exprNode = Some ''1 + 2''"
    using nodeText_paths[of exampleWorker exprNode exampleEnv] f d by (simp add: Let_def)
  have 2: "nodeText exampleEnv exampleWorker \<lparr>Pos = 0, End = 0, kind = EmptyNodeSlice, payload = []\<rparr> = Some []"
    using nodeText_paths[of exampleWorker "\<lparr>Pos = 0, End = 0, kind = EmptyNodeSlice, payload = []\<rparr>" exampleEnv]
    by (simp add: Let_def IsEmptyNodeSlice_def)
  have 3: "nodeText exampleEnv exampleWorker \<lparr>Pos = 21, End = 25, kind = Comment ''// virtual'', payload = []\<rparr>
     = Some ''// virtual''"
    using nodeText_paths[of exampleWorker "\<lparr>Pos = 21, End = 25, kind = Comment ''// virtual'', payload = []\<rparr>" exampleEnv]
    by (simp add: Let_def IsEmptyNodeSlice_def exampleWorker_def zeroWorker_def exampleFset_def exampleData_def exampleBytes_def sliceLen_def)
  have 4: "nodeText exampleEnv exampleWorker \<lparr>Pos = 11, End = 25, kind = OtherNode, payload = ''var x = 1 + 2;''\<rparr>
     = Some ''var x = 1 + 2;''"
    using nodeText_paths[of exampleWorker "\<lparr>Pos = 11, End = 25, kind = OtherNode, payload = ''var x = 1 + 2;''\<rparr>" exampleEnv]
    by (simp add: Let_def IsEmptyNodeSlice_def exampleWorker_def zeroWorker_def exampleFset_def exampleData_def exampleBytes_def sliceLen_def exampleEnv_def)
  from f 1 2 3 4 show ?thesis by simp
qed

text \<open>
  The claim as written fails for a node whose end lies before its start: both offsets
  are inside the file, and the call panics instead of returning a slice.
\<close>

theorem nodeText_paths_counterexample:
  "\<not> IsEmptyNodeSlice \<lparr>Pos = 5, End = 3, kind = OtherNode, payload = []\<rparr> \<and>
   Offset (fset exampleWorker 5) = 4 \<and> Offset (fset exampleWorker 3) = 2 \<and>
   sliceLen (data exampleWorker) = 24 \<and>
   nodeText exampleEnv exampleWorker \<lparr>Pos = 5, End = 3, kind = OtherNode, payload = []\<rparr> = None"
  by (simp add: nodeText_def slice_def sliceCap_def Let_def IsEmptyNodeSlice_def exampleWorker_def
      zeroWorker_def exampleFset_def exampleData_def exampleBytes_def sliceLen_def)

subsection \<open>The paths of grepFile\<close>

lemma Eq_testCond:
  "(testCond (filterHints w) \<noteq> bool3unset \<and>
    \<not> Eq (testCond (filterHints w)) (HasSuffix fname ''_test.go'')) = testCondSkips w fname"
  by (cases "testCond (filterHints w)") (auto simp: testCondSkips_def Eq_def)

lemma Eq_autogenCond:
  "(autogenCond (filterHints w) \<noteq> bool3unset \<and>
    \<not> Eq (autogenCond (filterHints w)) (isAutogenFile env rootFile)) = autogenCondSkips env w rootFile"
  by (cases "autogenCond (filterHints w)") (auto simp: autogenCondSkips_def Eq_def)

lemma grepFile_unfold:
  "grepFile env w fname =
     (if heatmapSkips env w fname then (Returned 0 None w, [])
      else if testCondSkips w fname then (Returned 0 None w, [])
      else
        (case ReadFile env fname of
           Inl err \<Rightarrow> (Returned 0 (Some (''read file: '' @ err)) w, [fname])
         | Inr d \<Rightarrow>
            (case parseFile env w (NewFileSet env) fname d of
               (fs, Inl err) \<Rightarrow> (Returned 0 (Some err) (w\<lparr>fset := fs\<rparr>), [fname])
             | (fs, Inr rootFile) \<Rightarrow>
                 if autogenCondSkips env w rootFile then (Returned 0 None (w\<lparr>fset := fs\<rparr>), [fname])
                 else
                   (case walk env (w\<lparr>fset := fs, data := d, filename := fname,
                                       pkgName := Name rootFile, n_w := 0\<rparr>)
                           (walkOrder env rootFile) of
                      None \<Rightarrow> (Panicked, [fname])
                    | Some w3 \<Rightarrow> (Returned (n_w w3) None w3, [fname])))))"
proof -
  have a: "\<And>fs rootFile. autogenCondSkips env (w\<lparr>fset := fs\<rparr>) rootFile = autogenCondSkips env w rootFile"
    by (simp add: autogenCondSkips_def)
  show ?thesis
    unfolding grepFile_def Let_def Eq_testCond Eq_autogenCond a heatmapSkips_def[symmetric]
    by (simp split: sum.splits prod.splits)
qed

lemma skips_fset:
  "heatmapSkips env (w\<lparr>fset := fs\<rparr>) fname = heatmapSkips env w fname"
  "testCondSkips (w\<lparr>fset := fs\<rparr>) fname = testCondSkips w fname"
  "autogenCondSkips env (w\<lparr>fset := fs\<rparr>) rootFile = autogenCondSkips env w rootFile"
  "parseFile env (w\<lparr>fset := fs\<rparr>) = parseFile env w"
  by (simp_all add: heatmapSkips_def testCondSkips_def autogenCondSkips_def parseFile_def fun_eq_iff)

lemma grepFile_fset_irrelevant:
  "agreeUpToFset (grepFile env w other) (grepFile env (w\<lparr>fset := fs\<rparr>) other)"
  unfolding grepFile_unfold[of env w other] grepFile_unfold[of env "w\<lparr>fset := fs\<rparr>" other] skips_fset
  by (simp add: agreeUpToFset_def split: sum.splits prod.splits option.splits)

lemma grepFile_walks:
  assumes "\<not> returnsEarly env w fname"
  shows "\<exists>d fs rootFile. ReadFile env fname = Inr d \<and>
           parseFile env w (NewFileSet env) fname d = (fs, Inr rootFile) \<and>
           grepFile env w fname =
             (case walk env (w\<lparr>fset := fs, data := d, filename := fname,
                                pkgName := Name rootFile, n_w := 0\<rparr>)
                     (walkOrder env rootFile) of
                None \<Rightarrow> (Panicked, [fname])
              | Some w3 \<Rightarrow> (Returned (n_w w3) None w3, [fname]))"
  using assms unfolding returnsEarly_def grepFile_unfold[of env w fname]
  by (auto split: sum.splits prod.splits)

subsection \<open>Eligibility prefilter\<close>

text \<open>
  Claim C5. For a file that the eligibility prefilter skips (a heat-map filename set is
  configured and the base name of the file is not a member, or the test-file condition
  is set and differs from whether the name ends in \<open>_test.go\<close>), grepFile returns the
  count 0 and no error, leaves the worker as it was, and reads no file: \<open>os.ReadFile\<close>
  is not called, and the result is the same whatever the file system holds. A file that
  the prefilter does not skip is read. So with a nil filename set every file passes the
  heat-map check, and with the test condition unset every file passes the name check.
\<close>

theorem grepFile_prefilter:
  "(heatmapSkips env w fname \<or> testCondSkips w fname \<longrightarrow>
      grepFile env w fname = (Returned 0 None w, []) \<and>
      (\<forall>r. grepFile (env\<lparr>ReadFile := r\<rparr>) w fname = (Returned 0 None w, []))) \<and>
   (\<not> heatmapSkips env w fname \<and> \<not> testCondSkips w fname \<longrightarrow>
      snd (grepFile env w fname) = [fname]) \<and>
   (heatmapFilenameSet w = None \<and> \<not> testCondSkips w fname \<longrightarrow>
      snd (grepFile env w fname) = [fname]) \<and>
   (testCond (filterHints w) = bool3unset \<and> \<not> heatmapSkips env w fname \<longrightarrow>
      snd (grepFile env w fname) = [fname])"
proof -
  have h: "\<And>r. heatmapSkips (env\<lparr>ReadFile := r\<rparr>) w fname = heatmapSkips env w fname"
    by (simp add: heatmapSkips_def split: option.splits)
  have p: "snd (grepFile env w fname) = [fname]"
    if "\<not> heatmapSkips env w fname" "\<not> testCondSkips w fname"
    using that unfolding grepFile_unfold[of env w fname]
    by (simp split: sum.splits prod.splits option.splits)
  have n: "\<not> heatmapSkips env w fname" if "heatmapFilenameSet w = None"
    using that by (simp add: heatmapSkips_def)
  have t: "\<not> testCondSkips w fname" if "testCond (filterHints w) = bool3unset"
    using that by (simp add: testCondSkips_def)
  show ?thesis
    using p n t by (auto simp: grepFile_unfold[of _ w fname] h)
qed

theorem grepFile_prefilter_witness:
  "heatmapSkips exampleEnv (zeroWorker\<lparr>heatmapFilenameSet := Some {''hot.go''}\<rparr>) ''x.go'' \<and>
   grepFile exampleEnv (zeroWorker\<lparr>heatmapFilenameSet := Some {''hot.go''}\<rparr>) ''x.go'' =
     (Returned 0 None (zeroWorker\<lparr>heatmapFilenameSet := Some {''hot.go''}\<rparr>), []) \<and>
   testCondSkips (zeroWorker\<lparr>filterHints := \<lparr>testCond = bool3true, autogenCond = bool3unset\<rparr>\<rparr>) ''x.go'' \<and>
   grepFile exampleEnv (zeroWorker\<lparr>filterHints := \<lparr>testCond = bool3true, autogenCond = bool3unset\<rparr>\<rparr>) ''x.go'' =
     (Returned 0 None (zeroWorker\<lparr>filterHints := \<lparr>testCond = bool3true, autogenCond = bool3unset\<rparr>\<rparr>), []) \<and>
   \<not> testCondSkips (zeroWorker\<lparr>filterHints := \<lparr>testCond = bool3true, autogenCond = bool3unset\<rparr>\<rparr>) ''x_test.go'' \<and>
   snd (grepFile exampleEnv (zeroWorker\<lparr>filterHints := \<lparr>testCond = bool3true, autogenCond = bool3unset\<rparr>\<rparr>) ''x_test.go'') =
     [''x_test.go''] \<and>
   heatmapFilenameSet zeroWorker = None \<and> testCond (filterHints zeroWorker) = bool3unset \<and>
   snd (grepFile exampleEnv zeroWorker ''x.go'') = [''x.go'']"
proof -
  let ?h = "zeroWorker\<lparr>heatmapFilenameSet := Some {''hot.go''}\<rparr>"
  let ?t = "zeroWorker\<lparr>filterHints := \<lparr>testCond = bool3true, autogenCond = bool3unset\<rparr>\<rparr>"
  have 1: "heatmapSkips exampleEnv ?h ''x.go''"
    by (simp add: heatmapSkips_def exampleEnv_def)
  have 2: "testCondSkips ?t ''x.go''" "\<not> testCondSkips ?t ''x_test.go''"
    by (simp_all add: testCondSkips_def HasSuffix_def suffix_to_prefix)
  have 3: "heatmapFilenameSet zeroWorker = None" "testCond (filterHints zeroWorker) = bool3unset"
    "heatmapFilenameSet ?t = None"
    by (simp_all add: zeroWorker_def)
  have 4: "\<not> testCondSkips zeroWorker ''x.go''"
    by (simp add: testCondSkips_def zeroWorker_def)
  from 1 2 3 4 grepFile_prefilter[of exampleEnv ?h "''x.go''"]
    grepFile_prefilter[of exampleEnv ?t "''x.go''"]
    grepFile_prefilter[of exampleEnv ?t "''x_test.go''"]
    grepFile_prefilter[of exampleEnv zeroWorker "''x.go''"]
  show ?thesis by simp
qed

subsection \<open>Parse errors\<close>

text \<open>
  Claim C7. For a file that passes the prefilter and is read, but whose bytes the parser
  rejects, grepFile returns the count 0 together with the parser's own error, appends no
  match, and changes nothing of the worker but the file set; the scan of any other file
  from the worker it leaves agrees, up to the file set, with the scan from the worker
  as it was before.
\<close>

theorem grepFile_parse_error:
  assumes "\<not> heatmapSkips env w fname" and "\<not> testCondSkips w fname"
    and "ReadFile env fname = Inr d"
    and "parseFile env w (NewFileSet env) fname d = (fs, Inl err)"
  shows "grepFile env w fname = (Returned 0 (Some err) (w\<lparr>fset := fs\<rparr>), [fname]) \<and>
         matches (w\<lparr>fset := fs\<rparr>) = matches w \<and>
         (\<forall>other. agreeUpToFset (grepFile env w other) (grepFile env (w\<lparr>fset := fs\<rparr>) other))"
  using assms grepFile_fset_irrelevant by (simp add: grepFile_unfold[of env w fname])

theorem grepFile_parse_error_witness:
  "\<not> heatmapSkips exampleEnv zeroWorker ''bad.go'' \<and> \<not> testCondSkips zeroWorker ''bad.go'' \<and>
   ReadFile exampleEnv ''bad.go'' = Inr \<lparr>elems = ''package'', spare = [CHR 0x00]\<rparr> \<and>
   parseFile exampleEnv zeroWorker (NewFileSet exampleEnv) ''bad.go''
     \<lparr>elems = ''package'', spare = [CHR 0x00]\<rparr> =
     (NewFileSet exampleEnv, Inl ''expected package name'') \<and>
   grepFile exampleEnv zeroWorker ''bad.go'' =
     (Returned 0 (Some ''expected package name'') (zeroWorker\<lparr>fset := NewFileSet exampleEnv\<rparr>),
      [''bad.go'']) \<and>
   agreeUpToFset (grepFile exampleEnv zeroWorker ''x.go'')
     (grepFile exampleEnv (zeroWorker\<lparr>fset := NewFileSet exampleEnv\<rparr>) ''x.go'')"
proof -
  have 1: "\<not> heatmapSkips exampleEnv zeroWorker ''bad.go''"
    by (simp add: heatmapSkips_def zeroWorker_def)
  have 2: "\<not> testCondSkips zeroWorker ''bad.go''"
    by (simp add: testCondSkips_def zeroWorker_def)
  have 3: "ReadFile exampleEnv ''bad.go'' = Inr \<lparr>elems = ''package'', spare = [CHR 0x00]\<rparr>"
    by (simp add: exampleEnv_def)
  have 4: "parseFile exampleEnv zeroWorker (NewFileSet exampleEnv) ''bad.go''
     \<lparr>elems = ''package'', spare = [CHR 0x00]\<rparr> =
     (NewFileSet exampleEnv, Inl ''expected package name'')"
    by (simp add: parseFile_def exampleEnv_def exampleData_def exampleBytes_def)
  from grepFile_parse_error[OF 1 2 3 4] 1 2 3 4 show ?thesis by simp
qed

subsection \<open>What an early return leaves untouched\<close>

text \<open>
  Claim C10. When grepFile returns early, without walking the tree (heat-map skip,
  test-condition mismatch, read error, parse error or autogeneration-condition
  mismatch), the fields \<open>matches\<close>, \<open>errors\<close>, \<open>data\<close>, \<open>filename\<close> and \<open>pkgName\<close>
  of the worker keep their values; the worker differs from the one before the call in
  the field \<open>fset\<close> at most, and not at all on the three paths that return before the
  file has been read.
\<close>

theorem grepFile_early_return_frame:
  assumes "returnsEarly env w fname"
  shows "\<exists>e w' rd. grepFile env w fname = (Returned 0 e w', rd) \<and>
           matches w' = matches w \<and> errors w' = errors w \<and> data w' = data w \<and>
           filename w' = filename w \<and> pkgName w' = pkgName w \<and>
           w' = w\<lparr>fset := fset w'\<rparr> \<and>
           (heatmapSkips env w fname \<or> testCondSkips w fname \<or> isl (ReadFile env fname)
              \<longrightarrow> w' = w)"
  using assms unfolding returnsEarly_def grepFile_unfold[of env w fname]
  by (auto split: sum.splits prod.splits)

theorem grepFile_early_return_frame_witness:
  "returnsEarly exampleEnv exampleWorker ''bad.go'' \<and>
   (\<exists>e w' rd. grepFile exampleEnv exampleWorker ''bad.go'' = (Returned 0 e w', rd) \<and>
      matches w' = matches exampleWorker \<and> errors w' = errors exampleWorker \<and>
      data w' = exampleData \<and> filename w' = ''x.go'' \<and> pkgName w' = pkgName exampleWorker \<and>
      w' = exampleWorker\<lparr>fset := fset w'\<rparr>)"
proof -
  have 1: "returnsEarly exampleEnv exampleWorker ''bad.go''"
    by (simp add: returnsEarly_def parseFile_def exampleEnv_def exampleData_def exampleBytes_def)
  have 2: "data exampleWorker = exampleData" "filename exampleWorker = ''x.go''"
    by (simp_all add: exampleWorker_def)
  from grepFile_early_return_frame[OF 1] 1 2 show ?thesis by metis
qed

subsection \<open>Count mode and full mode\<close>

text \<open>
  A run in full mode and the run in count mode go through the same hits when the filter
  evaluator, which is handed the worker, does not look at the two fields in which the
  runs differ: the mode flag and the matches gathered so far.
\<close>

lemma accept_output_fields:
  assumes "\<And>v c ms d e nd.
      applyFilter env \<lparr>w_ctx = v\<lparr>countMode := c, matches := ms\<rparr>, m_ctx = d\<rparr> e nd =
      applyFilter env \<lparr>w_ctx = v, m_ctx = d\<rparr> e nd"
  shows "accept env (v\<lparr>countMode := c, matches := ms\<rparr>) d = accept env v d"
  by (simp add: accept_iff assms)

lemma visitCallback_count_sim:
  assumes filt: "\<And>v c ms d e nd.
      applyFilter env \<lparr>w_ctx = v\<lparr>countMode := c, matches := ms\<rparr>, m_ctx = d\<rparr> e nd =
      applyFilter env \<lparr>w_ctx = v, m_ctx = d\<rparr> e nd"
    and full: "\<not> countMode v" and run: "visitCallback env v d = Some v'"
  shows "visitCallback env (v\<lparr>countMode := True, matches := ms0\<rparr>) d =
           Some (v'\<lparr>countMode := True, matches := ms0\<rparr>) \<and>
         \<not> countMode v' \<and>
         (\<exists>ms. matches v' = matches v @ ms \<and> int (length ms) = n_w v' - n_w v)"
proof (cases "accept env v d")
  case False
  then have "\<not> accept env (v\<lparr>countMode := True, matches := ms0\<rparr>) d"
    by (simp add: accept_output_fields[OF filt])
  with False run full show ?thesis by (simp add: visitCallback_reject)
next
  case True
  then have a: "accept env (v\<lparr>countMode := True, matches := ms0\<rparr>) d"
    by (simp add: accept_output_fields[OF filt])
  from visitCallback_appended[OF True full run] obtain mt where
    v': "v' = v\<lparr>n_w := n_w v + 1, matches := matches v @ [mt]\<rparr>" by blast
  have "visitCallback env (v\<lparr>countMode := True, matches := ms0\<rparr>) d =
          Some (v\<lparr>countMode := True, matches := ms0\<rparr>\<lparr>n_w := n_w v + 1\<rparr>)"
    using visitCallback_count[OF a] by simp
  with v' full show ?thesis by simp
qed

lemma runCallbacks_count_sim:
  assumes filt: "\<And>v c ms d e nd.
      applyFilter env \<lparr>w_ctx = v\<lparr>countMode := c, matches := ms\<rparr>, m_ctx = d\<rparr> e nd =
      applyFilter env \<lparr>w_ctx = v, m_ctx = d\<rparr> e nd"
  shows "\<not> countMode v \<Longrightarrow> runCallbacks env v ds = Some v' \<Longrightarrow>
     runCallbacks env (v\<lparr>countMode := True, matches := ms0\<rparr>) ds =
           Some (v'\<lparr>countMode := True, matches := ms0\<rparr>) \<and>
         \<not> countMode v' \<and>
         (\<exists>ms. matches v' = matches v @ ms \<and> int (length ms) = n_w v' - n_w v)"
proof (induction ds arbitrary: v)
  case Nil
  then show ?case by simp
next
  case (Cons d ds)
  from Cons.prems(2) obtain u where u: "visitCallback env v d = Some u"
    and rest: "runCallbacks env u ds = Some v'"
    by (auto split: option.splits)
  note S = visitCallback_count_sim[OF filt Cons.prems(1) u, of ms0]
  from S have nu: "\<not> countMode u" by simp
  note I = Cons.IH[OF nu rest]
  from S obtain ms1 where ms1: "matches u = matches v @ ms1" "int (length ms1) = n_w u - n_w v"
    by blast
  from I obtain ms2 where ms2: "matches v' = matches u @ ms2" "int (length ms2) = n_w v' - n_w u"
    by blast
  have "matches v' = matches v @ (ms1 @ ms2) \<and> int (length (ms1 @ ms2)) = n_w v' - n_w v"
    using ms1 ms2 by simp
  then have "\<exists>ms. matches v' = matches v @ ms \<and> int (length ms) = n_w v' - n_w v" by blast
  with S I show ?case by simp
qed

lemma Visit_count_sim:
  assumes filt: "\<And>v c ms d e nd.
      applyFilter env \<lparr>w_ctx = v\<lparr>countMode := c, matches := ms\<rparr>, m_ctx = d\<rparr> e nd =
      applyFilter env \<lparr>w_ctx = v, m_ctx = d\<rparr> e nd"
    and full: "\<not> countMode v" and run: "Visit env v nd = Some v'"
  shows "Visit env (v\<lparr>countMode := True, matches := ms0\<rparr>) nd =
           Some (v'\<lparr>countMode := True, matches := ms0\<rparr>) \<and>
         \<not> countMode v' \<and>
         (\<exists>ms. matches v' = matches v @ ms \<and> int (length ms) = n_w v' - n_w v)"
proof -
  obtain hits st where mn: "MatchNode env (m_w v) (gogrepState v) nd = (hits, st)"
    by (cases "MatchNode env (m_w v) (gogrepState v) nd")
  with run have r: "runCallbacks env (v\<lparr>gogrepState := st\<rparr>) hits = Some v'"
    by (simp add: Visit_def)
  have f: "\<not> countMode (v\<lparr>gogrepState := st\<rparr>)" using full by simp
  have eq: "v\<lparr>countMode := True, matches := ms0\<rparr>\<lparr>gogrepState := st\<rparr> =
            v\<lparr>gogrepState := st\<rparr>\<lparr>countMode := True, matches := ms0\<rparr>"
    by (cases v) simp
  from runCallbacks_count_sim[OF filt f r, of ms0] mn show ?thesis
    unfolding Visit_def by (simp add: eq)
qed

lemma walk_count_sim:
  assumes filt: "\<And>v c ms d e nd.
      applyFilter env \<lparr>w_ctx = v\<lparr>countMode := c, matches := ms\<rparr>, m_ctx = d\<rparr> e nd =
      applyFilter env \<lparr>w_ctx = v, m_ctx = d\<rparr> e nd"
  shows "\<not> countMode v \<Longrightarrow> walk env v nds = Some v' \<Longrightarrow>
     walk env (v\<lparr>countMode := True, matches := ms0\<rparr>) nds =
           Some (v'\<lparr>countMode := True, matches := ms0\<rparr>) \<and>
         \<not> countMode v' \<and>
         (\<exists>ms. matches v' = matches v @ ms \<and> int (length ms) = n_w v' - n_w v)"
proof (induction nds arbitrary: v)
  case Nil
  then show ?case by simp
next
  case (Cons nd nds)
  from Cons.prems(2) obtain u where u: "Visit env v nd = Some u"
    and rest: "walk env u nds = Some v'"
    by (auto split: option.splits)
  note S = Visit_count_sim[OF filt Cons.prems(1) u, of ms0]
  from S have nu: "\<not> countMode u" by simp
  note I = Cons.IH[OF nu rest]
  from S obtain ms1 where ms1: "matches u = matches v @ ms1" "int (length ms1) = n_w u - n_w v"
    by blast
  from I obtain ms2 where ms2: "matches v' = matches u @ ms2" "int (length ms2) = n_w v' - n_w u"
    by blast
  have "matches v' = matches v @ (ms1 @ ms2) \<and> int (length (ms1 @ ms2)) = n_w v' - n_w v"
    using ms1 ms2 by simp
  then have "\<exists>ms. matches v' = matches v @ ms \<and> int (length ms) = n_w v' - n_w v" by blast
  with S I show ?case by simp
qed

lemma skips_countMode:
  "heatmapSkips env (w\<lparr>countMode := b\<rparr>) fname = heatmapSkips env w fname"
  "testCondSkips (w\<lparr>countMode := b\<rparr>) fname = testCondSkips w fname"
  "autogenCondSkips env (w\<lparr>countMode := b\<rparr>) rootFile = autogenCondSkips env w rootFile"
  "parseFile env (w\<lparr>countMode := b\<rparr>) = parseFile env w"
  by (simp_all add: heatmapSkips_def testCondSkips_def autogenCondSkips_def parseFile_def fun_eq_iff)

lemma returnsEarly_countMode:
  "returnsEarly env (w\<lparr>countMode := b\<rparr>) fname = returnsEarly env w fname"
  by (auto simp: returnsEarly_def skips_countMode split: sum.splits prod.splits)

lemma grepFile_count_sim:
  assumes filt: "\<And>v c ms d e nd.
      applyFilter env \<lparr>w_ctx = v\<lparr>countMode := c, matches := ms\<rparr>, m_ctx = d\<rparr> e nd =
      applyFilter env \<lparr>w_ctx = v, m_ctx = d\<rparr> e nd"
    and full: "\<not> countMode v"
    and run: "grepFile env v fname = (Returned c e v', rd)"
  shows "grepFile env (v\<lparr>countMode := True\<rparr>) fname =
           (Returned c e (v'\<lparr>countMode := True, matches := matches v\<rparr>), rd) \<and>
         (\<exists>ms. matches v' = matches v @ ms \<and> int (length ms) = c)"
proof (cases "returnsEarly env v fname")
  case True
  have m: "v\<lparr>countMode := True\<rparr> = v\<lparr>countMode := True, matches := matches v\<rparr>" by simp
  from True run show ?thesis
    unfolding returnsEarly_def grepFile_unfold[of env v fname]
      grepFile_unfold[of env "v\<lparr>countMode := True\<rparr>" fname] skips_countMode
    by (auto split: sum.splits prod.splits if_splits)
next
  case False
  from grepFile_walks[OF False] obtain d fs rootFile where
    rf: "ReadFile env fname = Inr d" and
    pf: "parseFile env v (NewFileSet env) fname d = (fs, Inr rootFile)" and
    g: "grepFile env v fname =
             (case walk env (v\<lparr>fset := fs, data := d, filename := fname,
                                pkgName := Name rootFile, n_w := 0\<rparr>)
                     (walkOrder env rootFile) of
                None \<Rightarrow> (Panicked, [fname])
              | Some w3 \<Rightarrow> (Returned (n_w w3) None w3, [fname]))" by blast
  let ?w2 = "v\<lparr>fset := fs, data := d, filename := fname, pkgName := Name rootFile, n_w := 0\<rparr>"
  from run g have wk: "walk env ?w2 (walkOrder env rootFile) = Some v'"
    and c: "c = n_w v'" and e: "e = None" and rd: "rd = [fname]"
    by (auto split: option.splits)
  have f2: "\<not> countMode ?w2" using full by simp
  note S = walk_count_sim[OF filt f2 wk, of "matches v"]
  have ne: "\<not> returnsEarly env (v\<lparr>countMode := True\<rparr>) fname"
    using False by (simp add: returnsEarly_countMode)
  have eq: "v\<lparr>countMode := True\<rparr>\<lparr>fset := fs, data := d, filename := fname,
                                pkgName := Name rootFile, n_w := 0\<rparr> =
            ?w2\<lparr>countMode := True, matches := matches v\<rparr>"
    by (cases v) simp
  have S': "walk env (v\<lparr>countMode := True\<rparr>\<lparr>fset := fs, data := d, filename := fname,
                                pkgName := Name rootFile, n_w := 0\<rparr>) (walkOrder env rootFile) =
              Some (v'\<lparr>countMode := True, matches := matches v\<rparr>)"
    using S by (simp only: eq)
  have "grepFile env (v\<lparr>countMode := True\<rparr>) fname =
          (Returned (n_w v') None (v'\<lparr>countMode := True, matches := matches v\<rparr>), [fname])"
    using ne rf pf S'
    unfolding returnsEarly_def grepFile_unfold[of env "v\<lparr>countMode := True\<rparr>" fname] skips_countMode
    by (simp split: sum.splits prod.splits)
  moreover from S have "\<exists>ms. matches v' = matches v @ ms \<and> int (length ms) = n_w v'"
    by simp
  ultimately show ?thesis using c e rd by simp
qed

lemmas example_run_defs = exampleEnv_def exampleFile_def exampleNodes_def exprNode_def
  exampleFset_def exampleData_def exampleBytes_def zeroWorker_def grepFile_def parseFile_def Visit_def
  visitCallback_def accept_iff initMatchText_def initMatchCapture_def slice_def index_def
  sliceCap_def sliceLen_def
  isNewline_def HasSuffix_def isAutogenFile_def Eq_def Let_def

text \<open>
  Claim C1. Let the filter evaluator not depend on the mode flag and the gathered
  matches of the worker it is handed. If grepFile in full mode returns on a file, then
  on the same file and from the same worker grepFile in count mode returns the same
  count (and the same error, after the same reads), and leaves the matches of the worker
  as they were, while the full run appended exactly as many matches as it counted. Per
  hit: an accepted hit adds one to the counter in both modes; in count mode nothing else
  changes, in full mode one match is appended.
\<close>

theorem count_mode_same_count:
  assumes "\<And>v c ms d e nd.
      applyFilter env \<lparr>w_ctx = v\<lparr>countMode := c, matches := ms\<rparr>, m_ctx = d\<rparr> e nd =
      applyFilter env \<lparr>w_ctx = v, m_ctx = d\<rparr> e nd"
    and "grepFile env (w\<lparr>countMode := False\<rparr>) fname = (Returned c e wFull, rd)"
  shows "(\<exists>wCount. grepFile env (w\<lparr>countMode := True\<rparr>) fname = (Returned c e wCount, rd) \<and>
            matches wCount = matches w) \<and>
         (\<exists>ms. matches wFull = matches w @ ms \<and> int (length ms) = c) \<and>
         (\<forall>v d. accept env v d \<longrightarrow>
            (countMode v \<longrightarrow> visitCallback env v d = Some (v\<lparr>n_w := n_w v + 1\<rparr>)) \<and>
            (\<not> countMode v \<longrightarrow>
               (\<forall>v'. visitCallback env v d = Some v' \<longrightarrow>
                  (\<exists>mt. v' = v\<lparr>n_w := n_w v + 1, matches := matches v @ [mt]\<rparr>))))"
proof -
  have f: "\<not> countMode (w\<lparr>countMode := False\<rparr>)" by simp
  from grepFile_count_sim[OF assms(1) f assms(2)]
  have "(\<exists>wCount. grepFile env (w\<lparr>countMode := True\<rparr>) fname = (Returned c e wCount, rd) \<and>
            matches wCount = matches w) \<and>
         (\<exists>ms. matches wFull = matches w @ ms \<and> int (length ms) = c)" by simp
  moreover have "visitCallback env v d = Some (v\<lparr>n_w := n_w v + 1\<rparr>)"
    if "accept env v d" "countMode v" for v d
    using that by (rule visitCallback_count)
  moreover have "\<exists>mt. v' = v\<lparr>n_w := n_w v + 1, matches := matches v @ [mt]\<rparr>"
    if "accept env v d" "\<not> countMode v" "visitCallback env v d = Some v'" for v d v'
    using visitCallback_appended[OF that] by blast
  ultimately show ?thesis by blast
qed

theorem count_mode_same_count_witness:
  "(\<forall>v c ms d e nd.
      applyFilter exampleEnv \<lparr>w_ctx = v\<lparr>countMode := c, matches := ms\<rparr>, m_ctx = d\<rparr> e nd =
      applyFilter exampleEnv \<lparr>w_ctx = v, m_ctx = d\<rparr> e nd) \<and>
   (\<exists>wFull. grepFile exampleEnv
               (zeroWorker\<lparr>filterExpr := FilterExpr (OpOther 1) [], countMode := False\<rparr>) ''x.go'' =
             (Returned 3 None wFull, [''x.go'']) \<and>
            length (matches wFull) = 3) \<and>
   (\<exists>wCount. grepFile exampleEnv
               (zeroWorker\<lparr>filterExpr := FilterExpr (OpOther 1) [], countMode := True\<rparr>) ''x.go'' =
             (Returned 3 None wCount, [''x.go'']) \<and>
            matches wCount = [])"
proof -
  let ?w = "zeroWorker\<lparr>filterExpr := FilterExpr (OpOther 1) []\<rparr>"
  have filt: "\<And>v c ms d e nd.
      applyFilter exampleEnv \<lparr>w_ctx = v\<lparr>countMode := c, matches := ms\<rparr>, m_ctx = d\<rparr> e nd =
      applyFilter exampleEnv \<lparr>w_ctx = v, m_ctx = d\<rparr> e nd"
    by (simp add: exampleEnv_def)
  obtain wFull where full: "grepFile exampleEnv (?w\<lparr>countMode := False\<rparr>) ''x.go'' =
      (Returned 3 None wFull, [''x.go''])"
    by (simp add: example_run_defs)
  have m: "matches ?w = []" by (simp add: zeroWorker_def)
  from count_mode_same_count[OF filt full] m
  have "(\<exists>wCount. grepFile exampleEnv (?w\<lparr>countMode := True\<rparr>) ''x.go'' =
            (Returned 3 None wCount, [''x.go'']) \<and> matches wCount = [])"
    and "length (matches wFull) = 3" by auto
  with filt full show ?thesis by blast
qed

subsection \<open>The no-op filter expression\<close>

text \<open>
  A run under the no-op expression accepts every hit, so a run under any other
  expression, which goes through the same hits, accepts a part of them; it materialises
  a part of the same matches, so it does not panic where the first run did not.
\<close>

lemma accept_nop: "Op (filterExpr v) = OpNop \<Longrightarrow> accept env v d"
  by (simp add: accept_iff)

lemma pendingMatch_cong:
  "fset u = fset v \<Longrightarrow> filename u = filename v \<Longrightarrow> needCapture u = needCapture v \<Longrightarrow>
     pendingMatch u d = pendingMatch v d"
  by (simp add: pendingMatch_def initMatchCapture_def Let_def)

lemma visitCallback_nop_sim:
  assumes nop: "Op (filterExpr v) = OpNop"
    and run: "visitCallback env v d = Some v'"
    and le: "k \<le> n_w v"
  shows "\<exists>k' ms'. visitCallback env (v\<lparr>filterExpr := f, n_w := k, matches := ms\<rparr>) d =
                     Some (v'\<lparr>filterExpr := f, n_w := k', matches := ms'\<rparr>) \<and>
                   k' \<le> n_w v' \<and> Op (filterExpr v') = OpNop"
proof -
  let ?u = "v\<lparr>filterExpr := f, n_w := k, matches := ms\<rparr>"
  note a = accept_nop[OF nop, of env d]
  have shape: "\<exists>ms1. v' = v\<lparr>n_w := n_w v + 1, matches := ms1\<rparr>"
  proof (cases "countMode v")
    case True
    from visitCallback_count[OF a True] run have "v' = v\<lparr>n_w := n_w v + 1, matches := matches v\<rparr>"
      by simp
    then show ?thesis by blast
  next
    case False
    from visitCallback_appended[OF a False run] show ?thesis by blast
  qed
  then obtain ms1 where v': "v' = v\<lparr>n_w := n_w v + 1, matches := ms1\<rparr>" by blast
  have nv: "n_w v' = n_w v + 1" and ov: "Op (filterExpr v') = OpNop"
    using nop by (simp_all add: v')
  have undo: "\<And>k' ms'. v'\<lparr>filterExpr := f, n_w := k', matches := ms'\<rparr> =
                 v\<lparr>filterExpr := f, n_w := k', matches := ms'\<rparr>"
    by (simp add: v')
  show ?thesis
  proof (cases "accept env ?u d")
    case False
    then have "visitCallback env ?u d = Some ?u" by (rule visitCallback_reject)
    then have "visitCallback env ?u d = Some (v'\<lparr>filterExpr := f, n_w := k, matches := ms\<rparr>)"
      by (simp only: undo)
    moreover have "k \<le> n_w v'" using le nv by simp
    ultimately show ?thesis using ov by blast
  next
    case acc: True
    show ?thesis
    proof (cases "countMode v")
      case True
      then have cu: "countMode ?u" by simp
      have "visitCallback env ?u d = Some (?u\<lparr>n_w := n_w ?u + 1\<rparr>)"
        by (rule visitCallback_count[OF acc cu])
      moreover have "?u\<lparr>n_w := n_w ?u + 1\<rparr> = v\<lparr>filterExpr := f, n_w := k + 1, matches := ms\<rparr>"
        by simp
      ultimately have "visitCallback env ?u d =
          Some (v'\<lparr>filterExpr := f, n_w := k + 1, matches := ms\<rparr>)"
        by (simp only: undo)
      moreover have "k + 1 \<le> n_w v'" using le nv by simp
      ultimately show ?thesis using ov by blast
    next
      case False
      from visitCallback_appended[OF a False run] obtain mt where
        i: "initMatchText v (pendingMatch v d)
                 (Offset (fset v (Pos (Node d)))) (Offset (fset v (End (Node d)))) = Some mt"
        by blast
      have nc: "\<not> countMode ?u" using False by simp
      have p: "pendingMatch ?u d = pendingMatch v d" by (rule pendingMatch_cong) simp_all
      have t: "initMatchText ?u = initMatchText v"
        by (intro ext initMatchText_cong) simp_all
      have fs: "fset ?u = fset v" by simp
      have "visitCallback env ?u d = Some (?u\<lparr>n_w := n_w ?u + 1, matches := matches ?u @ [mt]\<rparr>)"
        unfolding visitCallback_full[OF acc nc] p t fs by (simp only: i option.case)
      moreover have "?u\<lparr>n_w := n_w ?u + 1, matches := matches ?u @ [mt]\<rparr> =
          v\<lparr>filterExpr := f, n_w := k + 1, matches := ms @ [mt]\<rparr>"
        by simp
      ultimately have "visitCallback env ?u d =
          Some (v'\<lparr>filterExpr := f, n_w := k + 1, matches := ms @ [mt]\<rparr>)"
        by (simp only: undo)
      moreover have "k + 1 \<le> n_w v'" using le nv by simp
      ultimately show ?thesis using ov by blast
    qed
  qed
qed

lemma runCallbacks_nop_sim:
  "Op (filterExpr v) = OpNop \<Longrightarrow> runCallbacks env v ds = Some v' \<Longrightarrow> k \<le> n_w v \<Longrightarrow>
   \<exists>k' ms'. runCallbacks env (v\<lparr>filterExpr := f, n_w := k, matches := ms\<rparr>) ds =
                     Some (v'\<lparr>filterExpr := f, n_w := k', matches := ms'\<rparr>) \<and>
                   k' \<le> n_w v' \<and> Op (filterExpr v') = OpNop"
proof (induction ds arbitrary: v k ms)
  case Nil
  then show ?case by (intro exI[of _ k] exI[of _ ms]) simp
next
  case (Cons d ds)
  from Cons.prems(2) obtain u where u: "visitCallback env v d = Some u"
    and rest: "runCallbacks env u ds = Some v'"
    by (auto split: option.splits)
  from visitCallback_nop_sim[OF Cons.prems(1) u Cons.prems(3), where f=f and ms=ms] obtain k1 ms1 where
    s1: "visitCallback env (v\<lparr>filterExpr := f, n_w := k, matches := ms\<rparr>) d =
           Some (u\<lparr>filterExpr := f, n_w := k1, matches := ms1\<rparr>)"
    and le1: "k1 \<le> n_w u" and nop1: "Op (filterExpr u) = OpNop" by blast
  from Cons.IH[OF nop1 rest le1, where ms=ms1] obtain k2 ms2 where
    s2: "runCallbacks env (u\<lparr>filterExpr := f, n_w := k1, matches := ms1\<rparr>) ds =
           Some (v'\<lparr>filterExpr := f, n_w := k2, matches := ms2\<rparr>)"
    and r: "k2 \<le> n_w v'" "Op (filterExpr v') = OpNop" by blast
  from s1 s2 r show ?case by (intro exI[of _ k2] exI[of _ ms2]) simp
qed

lemma Visit_nop_sim:
  assumes "Op (filterExpr v) = OpNop" "Visit env v nd = Some v'" "k \<le> n_w v"
  shows "\<exists>k' ms'. Visit env (v\<lparr>filterExpr := f, n_w := k, matches := ms\<rparr>) nd =
                     Some (v'\<lparr>filterExpr := f, n_w := k', matches := ms'\<rparr>) \<and>
                   k' \<le> n_w v' \<and> Op (filterExpr v') = OpNop"
proof -
  obtain hits st where mn: "MatchNode env (m_w v) (gogrepState v) nd = (hits, st)"
    by (cases "MatchNode env (m_w v) (gogrepState v) nd")
  with assms(2) have r: "runCallbacks env (v\<lparr>gogrepState := st\<rparr>) hits = Some v'"
    by (simp add: Visit_def)
  have n: "Op (filterExpr (v\<lparr>gogrepState := st\<rparr>)) = OpNop" "k \<le> n_w (v\<lparr>gogrepState := st\<rparr>)"
    using assms by simp_all
  have eq: "v\<lparr>filterExpr := f, n_w := k, matches := ms\<rparr>\<lparr>gogrepState := st\<rparr> =
            v\<lparr>gogrepState := st\<rparr>\<lparr>filterExpr := f, n_w := k, matches := ms\<rparr>"
    by (cases v) simp
  have V: "Visit env (v\<lparr>filterExpr := f, n_w := k, matches := ms\<rparr>) nd =
        runCallbacks env (v\<lparr>gogrepState := st\<rparr>\<lparr>filterExpr := f, n_w := k, matches := ms\<rparr>) hits"
    unfolding Visit_def using mn by (simp add: eq[symmetric])
  from runCallbacks_nop_sim[OF n(1) r n(2), where f=f and ms=ms] show ?thesis
    unfolding V by blast
qed

lemma walk_nop_sim:
  "Op (filterExpr v) = OpNop \<Longrightarrow> walk env v nds = Some v' \<Longrightarrow> k \<le> n_w v \<Longrightarrow>
   \<exists>k' ms'. walk env (v\<lparr>filterExpr := f, n_w := k, matches := ms\<rparr>) nds =
                     Some (v'\<lparr>filterExpr := f, n_w := k', matches := ms'\<rparr>) \<and>
                   k' \<le> n_w v' \<and> Op (filterExpr v') = OpNop"
proof (induction nds arbitrary: v k ms)
  case Nil
  then show ?case by (intro exI[of _ k] exI[of _ ms]) simp
next
  case (Cons nd nds)
  from Cons.prems(2) obtain u where u: "Visit env v nd = Some u"
    and rest: "walk env u nds = Some v'"
    by (auto split: option.splits)
  from Visit_nop_sim[OF Cons.prems(1) u Cons.prems(3), where f=f and ms=ms] obtain k1 ms1 where
    s1: "Visit env (v\<lparr>filterExpr := f, n_w := k, matches := ms\<rparr>) nd =
           Some (u\<lparr>filterExpr := f, n_w := k1, matches := ms1\<rparr>)"
    and le1: "k1 \<le> n_w u" and nop1: "Op (filterExpr u) = OpNop" by blast
  from Cons.IH[OF nop1 rest le1, where ms=ms1] obtain k2 ms2 where
    s2: "walk env (u\<lparr>filterExpr := f, n_w := k1, matches := ms1\<rparr>) nds =
           Some (v'\<lparr>filterExpr := f, n_w := k2, matches := ms2\<rparr>)"
    and r: "k2 \<le> n_w v'" "Op (filterExpr v') = OpNop" by blast
  from s1 s2 r show ?case by (intro exI[of _ k2] exI[of _ ms2]) simp
qed

lemma skips_filterExpr:
  "heatmapSkips env (w\<lparr>filterExpr := f\<rparr>) fname = heatmapSkips env w fname"
  "testCondSkips (w\<lparr>filterExpr := f\<rparr>) fname = testCondSkips w fname"
  "autogenCondSkips env (w\<lparr>filterExpr := f\<rparr>) rootFile = autogenCondSkips env w rootFile"
  "parseFile env (w\<lparr>filterExpr := f\<rparr>) = parseFile env w"
  by (simp_all add: heatmapSkips_def testCondSkips_def autogenCondSkips_def parseFile_def fun_eq_iff)

lemma returnsEarly_filterExpr:
  "returnsEarly env (w\<lparr>filterExpr := f\<rparr>) fname = returnsEarly env w fname"
  by (auto simp: returnsEarly_def skips_filterExpr split: sum.splits prod.splits)

lemma grepFile_early_count:
  assumes "returnsEarly env w fname"
  shows "\<exists>e w' rd. grepFile env w fname = (Returned 0 e w', rd) \<and>
           (\<forall>f. \<exists>w''. grepFile env (w\<lparr>filterExpr := f\<rparr>) fname = (Returned 0 e w'', rd))"
  using assms
  unfolding returnsEarly_def grepFile_unfold[of env w fname]
    grepFile_unfold[of env "w\<lparr>filterExpr := f\<rparr>" fname for f] skips_filterExpr
  by (auto split: sum.splits prod.splits if_splits)

lemma grepFile_nop_sim:
  assumes nop: "Op (filterExpr v) = OpNop"
    and run: "grepFile env v fname = (Returned c e v', rd)"
  shows "\<exists>c' w'. grepFile env (v\<lparr>filterExpr := f\<rparr>) fname = (Returned c' e w', rd) \<and> c' \<le> c"
proof (cases "returnsEarly env v fname")
  case True
  from grepFile_early_count[OF True] run show ?thesis by fastforce
next
  case False
  from grepFile_walks[OF False] obtain d fs rootFile where
    rf: "ReadFile env fname = Inr d" and
    pf: "parseFile env v (NewFileSet env) fname d = (fs, Inr rootFile)" and
    g: "grepFile env v fname =
             (case walk env (v\<lparr>fset := fs, data := d, filename := fname,
                                pkgName := Name rootFile, n_w := 0\<rparr>)
                     (walkOrder env rootFile) of
                None \<Rightarrow> (Panicked, [fname])
              | Some w3 \<Rightarrow> (Returned (n_w w3) None w3, [fname]))" by blast
  let ?w2 = "v\<lparr>fset := fs, data := d, filename := fname, pkgName := Name rootFile, n_w := 0\<rparr>"
  from run g have wk: "walk env ?w2 (walkOrder env rootFile) = Some v'"
    and c: "c = n_w v'" and e: "e = None" and rd: "rd = [fname]"
    by (auto split: option.splits)
  have n2: "Op (filterExpr ?w2) = OpNop" using nop by simp
  have k0: "0 \<le> n_w ?w2" by simp
  from walk_nop_sim[OF n2 wk k0, where f=f and ms="matches v"] obtain k' ms' where
    S: "walk env (?w2\<lparr>filterExpr := f, n_w := 0, matches := matches v\<rparr>) (walkOrder env rootFile) =
          Some (v'\<lparr>filterExpr := f, n_w := k', matches := ms'\<rparr>)"
    and le: "k' \<le> n_w v'" by blast
  have eq: "v\<lparr>filterExpr := f\<rparr>\<lparr>fset := fs, data := d, filename := fname,
                                pkgName := Name rootFile, n_w := 0\<rparr> =
            ?w2\<lparr>filterExpr := f, n_w := 0, matches := matches v\<rparr>"
    by (cases v) simp
  have S': "walk env (v\<lparr>filterExpr := f\<rparr>\<lparr>fset := fs, data := d, filename := fname,
                                pkgName := Name rootFile, n_w := 0\<rparr>) (walkOrder env rootFile) =
          Some (v'\<lparr>filterExpr := f, n_w := k', matches := ms'\<rparr>)"
    using S by (simp only: eq)
  have ne: "\<not> returnsEarly env (v\<lparr>filterExpr := f\<rparr>) fname"
    using False by (simp add: returnsEarly_filterExpr)
  have "grepFile env (v\<lparr>filterExpr := f\<rparr>) fname =
          (Returned k' None (v'\<lparr>filterExpr := f, n_w := k', matches := ms'\<rparr>), [fname])"
    using ne rf pf S'
    unfolding returnsEarly_def grepFile_unfold[of env "v\<lparr>filterExpr := f\<rparr>" fname] skips_filterExpr
    by (simp split: sum.splits prod.splits)
  with le c e rd show ?thesis by simp
qed

lemma visitCallback_filterExpr:
  "visitCallback env v d = Some v' \<Longrightarrow> filterExpr v' = filterExpr v"
  by (auto simp: visitCallback_def Let_def split: if_splits option.splits)

lemma callbacksFilterCalls_nop:
  "Op (filterExpr v) = OpNop \<Longrightarrow> callbacksFilterCalls env v ds = []"
proof (induction ds arbitrary: v)
  case Nil
  show ?case by simp
next
  case (Cons d ds)
  have "snd (evalAccept env v d) = []" using Cons.prems by (simp add: evalAccept_def)
  moreover have "callbacksFilterCalls env v' ds = []" if "visitCallback env v d = Some v'" for v'
    using Cons.IH[of v'] Cons.prems visitCallback_filterExpr[OF that] by simp
  ultimately show ?case by (simp split: option.splits)
qed

lemma runCallbacks_filterExpr:
  "runCallbacks env v ds = Some v' \<Longrightarrow> filterExpr v' = filterExpr v"
proof (induction ds arbitrary: v)
  case Nil
  then show ?case by simp
next
  case (Cons d ds)
  then show ?case
    by (auto split: option.splits dest: visitCallback_filterExpr)
qed

lemma Visit_filterExpr: "Visit env v nd = Some v' \<Longrightarrow> filterExpr v' = filterExpr v"
  by (auto simp: Visit_def split: prod.splits dest: runCallbacks_filterExpr)

lemma VisitFilterCalls_nop:
  "Op (filterExpr v) = OpNop \<Longrightarrow> VisitFilterCalls env v nd = []"
  by (simp add: VisitFilterCalls_def callbacksFilterCalls_nop split: prod.splits)

lemma walkFilterCalls_nop:
  "Op (filterExpr v) = OpNop \<Longrightarrow> walkFilterCalls env v nds = []"
proof (induction nds arbitrary: v)
  case Nil
  show ?case by simp
next
  case (Cons nd nds)
  have "walkFilterCalls env v' nds = []" if "Visit env v nd = Some v'" for v'
    using Cons.IH[of v'] Cons.prems Visit_filterExpr[OF that] by simp
  then show ?case using Cons.prems by (simp add: VisitFilterCalls_nop split: option.splits)
qed

text \<open>
  Claim C6. When the operation of the configured filter expression is the no-op, every
  hit is accepted and the filter evaluator is not called: the expression that computes
  \<open>accept\<close> is true with an empty list of evaluator calls, for every worker and every
  hit, and no evaluator call is made while a node is visited or a tree is walked; the
  callback gives the same result under every evaluator. Under another expression the
  evaluator is called once per hit. So if grepFile returns under a no-op expression,
  then on the same file and from the same worker it returns under any other expression
  too, with the same error after the same reads, and with a count that is not greater.
\<close>

theorem nop_filter_never_fewer:
  assumes "Op nop = OpNop"
    and "grepFile env (w\<lparr>filterExpr := nop\<rparr>) fname = (Returned c e wNop, rd)"
  shows "(\<exists>c' w'. grepFile env (w\<lparr>filterExpr := f\<rparr>) fname = (Returned c' e w', rd) \<and> c' \<le> c) \<and>
         (\<forall>v d. evalAccept env (v\<lparr>filterExpr := nop\<rparr>) d = (True, [])) \<and>
         (\<forall>v nd. VisitFilterCalls env (v\<lparr>filterExpr := nop\<rparr>) nd = []) \<and>
         (\<forall>v nds. walkFilterCalls env (v\<lparr>filterExpr := nop\<rparr>) nds = []) \<and>
         (\<forall>v d. Op f \<noteq> OpNop \<longrightarrow>
            snd (evalAccept env (v\<lparr>filterExpr := f\<rparr>) d) =
              [\<lparr>w_ctx = v\<lparr>filterExpr := f\<rparr>, m_ctx = d\<rparr>]) \<and>
         (\<forall>v d. accept env (v\<lparr>filterExpr := nop\<rparr>) d) \<and>
         (\<forall>g v d. visitCallback (env\<lparr>applyFilter := g\<rparr>) (v\<lparr>filterExpr := nop\<rparr>) d =
                  visitCallback env (v\<lparr>filterExpr := nop\<rparr>) d)"
proof -
  have n: "Op (filterExpr (v\<lparr>filterExpr := nop\<rparr>)) = OpNop" for v :: worker
    using assms(1) by simp
  from grepFile_nop_sim[OF n assms(2), of f]
  have 1: "\<exists>c' w'. grepFile env (w\<lparr>filterExpr := f\<rparr>) fname = (Returned c' e w', rd) \<and> c' \<le> c"
    by simp
  have 2: "evalAccept env (v\<lparr>filterExpr := nop\<rparr>) d = (True, [])" for v d
    using assms(1) by (simp add: evalAccept_def)
  have 3: "VisitFilterCalls env (v\<lparr>filterExpr := nop\<rparr>) nd = []" for v nd
    by (rule VisitFilterCalls_nop[OF n])
  have 4: "walkFilterCalls env (v\<lparr>filterExpr := nop\<rparr>) nds = []" for v nds
    by (rule walkFilterCalls_nop[OF n])
  have 5: "snd (evalAccept env (v\<lparr>filterExpr := f\<rparr>) d) =
              [\<lparr>w_ctx = v\<lparr>filterExpr := f\<rparr>, m_ctx = d\<rparr>]" if "Op f \<noteq> OpNop" for v d
    using that by (simp add: evalAccept_def)
  have 6: "accept env (v\<lparr>filterExpr := nop\<rparr>) d" for v d
    using assms(1) by (simp add: accept_iff)
  have 7: "visitCallback (env\<lparr>applyFilter := g\<rparr>) (v\<lparr>filterExpr := nop\<rparr>) d =
                  visitCallback env (v\<lparr>filterExpr := nop\<rparr>) d" for g v d
    using assms(1) by (simp add: visitCallback_def accept_iff)
  from 1 2 3 4 5 6 7 show ?thesis by blast
qed

theorem nop_filter_never_fewer_witness:
  "Op (FilterExpr OpNop []) = OpNop \<and>
   (\<exists>wNop. grepFile exampleEnv (zeroWorker\<lparr>filterExpr := FilterExpr OpNop []\<rparr>) ''x.go'' =
              (Returned 4 None wNop, [''x.go''])) \<and>
   (\<exists>w'. grepFile exampleEnv (zeroWorker\<lparr>filterExpr := FilterExpr (OpOther 1) []\<rparr>) ''x.go'' =
              (Returned 3 None w', [''x.go''])) \<and>
   Op (FilterExpr (OpOther 1) []) \<noteq> OpNop \<and>
   evalAccept exampleEnv (zeroWorker\<lparr>filterExpr := FilterExpr OpNop []\<rparr>) exampleHit = (True, []) \<and>
   walkFilterCalls exampleEnv (zeroWorker\<lparr>filterExpr := FilterExpr OpNop []\<rparr>) exampleNodes = [] \<and>
   snd (evalAccept exampleEnv (zeroWorker\<lparr>filterExpr := FilterExpr (OpOther 1) []\<rparr>) exampleHit) =
     [\<lparr>w_ctx = zeroWorker\<lparr>filterExpr := FilterExpr (OpOther 1) []\<rparr>, m_ctx = exampleHit\<rparr>] \<and>
   length (walkFilterCalls exampleEnv (zeroWorker\<lparr>filterExpr := FilterExpr (OpOther 1) []\<rparr>)
             exampleNodes) = 4"
proof -
  have n: "Op (FilterExpr OpNop []) = OpNop" by simp
  have o: "Op (FilterExpr (OpOther 1) []) \<noteq> OpNop" by simp
  obtain wNop where r: "grepFile exampleEnv (zeroWorker\<lparr>filterExpr := FilterExpr OpNop []\<rparr>) ''x.go'' =
              (Returned 4 None wNop, [''x.go''])"
    by (simp add: example_run_defs)
  obtain w' where f: "grepFile exampleEnv (zeroWorker\<lparr>filterExpr := FilterExpr (OpOther 1) []\<rparr>) ''x.go'' =
              (Returned 3 None w', [''x.go''])"
    by (simp add: example_run_defs)
  note t = nop_filter_never_fewer[OF n r, of "FilterExpr (OpOther 1) []"]
  from t f have "(3::int) \<le> 4" by simp
  have a: "evalAccept exampleEnv (zeroWorker\<lparr>filterExpr := FilterExpr OpNop []\<rparr>) exampleHit = (True, [])"
    using t by blast
  have b: "walkFilterCalls exampleEnv (zeroWorker\<lparr>filterExpr := FilterExpr OpNop []\<rparr>) exampleNodes = []"
    using t by blast
  have c: "snd (evalAccept exampleEnv (zeroWorker\<lparr>filterExpr := FilterExpr (OpOther 1) []\<rparr>) exampleHit) =
     [\<lparr>w_ctx = zeroWorker\<lparr>filterExpr := FilterExpr (OpOther 1) []\<rparr>, m_ctx = exampleHit\<rparr>]"
    using t o by blast
  have d: "length (walkFilterCalls exampleEnv (zeroWorker\<lparr>filterExpr := FilterExpr (OpOther 1) []\<rparr>)
             exampleNodes) = 4"
    by (simp add: example_run_defs VisitFilterCalls_def evalAccept_def)
  from n o r f a b c d show ?thesis by blast
qed

subsection \<open>Offsets of the appended matches\<close>

text \<open>
  The offsets of a match record are those that the position table gives for the start
  and the end of the node of the hit, and its captured nodes carry those of the nodes
  captured; the append changes neither the bytes, nor the position table, nor the
  compiled pattern.
\<close>

lemma visitCallback_offsetsValid:
  assumes table: "\<And>p. 0 \<le> Offset (fset v p) \<and> Offset (fset v p) \<le> sliceLen (data v)"
    and ord: "orderedHit (fset v) d"
    and run: "visitCallback env v d = Some v'"
  shows "data v' = data v \<and> fset v' = fset v \<and> m_w v' = m_w v \<and>
         (\<exists>ms. matches v' = matches v @ ms \<and> length ms \<le> 1 \<and>
               (accept env v d \<and> \<not> countMode v \<longrightarrow> length ms = 1) \<and>
               (\<forall>mt \<in> set ms. offsetsValid (elems (data v)) mt))"
proof (cases "accept env v d \<and> \<not> countMode v")
  case False
  then consider "\<not> accept env v d" | "accept env v d" "countMode v" by blast
  then have "data v' = data v \<and> fset v' = fset v \<and> m_w v' = m_w v \<and> matches v' = matches v"
  proof cases
    case 1
    with run have "v' = v" by (simp add: visitCallback_reject)
    then show ?thesis by simp
  next
    case 2
    with run have "v' = v\<lparr>n_w := n_w v + 1\<rparr>" by (simp add: visitCallback_count)
    then show ?thesis by simp
  qed
  with False show ?thesis by simp
next
  case True
  then have a: "accept env v d" and f: "\<not> countMode v" by simp_all
  from visitCallback_appended[OF a f run] obtain mt where
    i: "initMatchText v (pendingMatch v d)
          (Offset (fset v (Pos (Node d)))) (Offset (fset v (End (Node d)))) = Some mt"
    and v': "v' = v\<lparr>n_w := n_w v + 1, matches := matches v @ [mt]\<rparr>" by blast
  note F = initMatchText_fields[OF i]
  note P = pendingMatch_fields[of v d]
  have so: "startOffset mt = Offset (fset v (Pos (Node d)))"
    and eo: "endOffset mt = Offset (fset v (End (Node d)))"
    using F P by simp_all
  have cap: "capture mt = (if needCapture v
      then map (\<lambda>c. \<lparr>startOffset_c = Offset (fset v (Pos (capNode c))),
                       endOffset_c = Offset (fset v (End (capNode c))),
                       data_c = c\<rparr>) (Capture d)
      else [])" using F P by simp
  have len: "int (length (elems (data v))) = sliceLen (data v)" by (simp add: sliceLen_def)
  have "offsetsValid (elems (data v)) mt"
    unfolding offsetsValid_def so eo len using table ord
    by (auto simp: cap orderedHit_def)
  with v' have "matches v' = matches v @ [mt] \<and> length [mt] \<le> 1 \<and>
      (accept env v d \<and> \<not> countMode v \<longrightarrow> length [mt] = 1) \<and>
      (\<forall>m \<in> set [mt]. offsetsValid (elems (data v)) m)" by simp
  then have "\<exists>ms. matches v' = matches v @ ms \<and> length ms \<le> 1 \<and>
               (accept env v d \<and> \<not> countMode v \<longrightarrow> length ms = 1) \<and>
               (\<forall>mt \<in> set ms. offsetsValid (elems (data v)) mt)" by (rule exI)
  with v' show ?thesis by simp
qed

lemma runCallbacks_offsetsValid:
  assumes table: "\<And>p. 0 \<le> Offset (fs p) \<and> Offset (fs p) \<le> sliceLen D"
  shows "runCallbacks env v ds = Some v' \<Longrightarrow> fset v = fs \<Longrightarrow> data v = D \<Longrightarrow>
         (\<forall>d \<in> set ds. orderedHit fs d) \<Longrightarrow>
         data v' = D \<and> fset v' = fs \<and> m_w v' = m_w v \<and>
         (\<exists>ms. matches v' = matches v @ ms \<and> (\<forall>mt \<in> set ms. offsetsValid (elems D) mt))"
proof (induction ds arbitrary: v)
  case Nil
  then show ?case by simp
next
  case (Cons d ds)
  from Cons.prems(1) obtain u where u: "visitCallback env v d = Some u"
    and rest: "runCallbacks env u ds = Some v'"
    by (auto split: option.splits)
  have t: "\<And>p. 0 \<le> Offset (fset v p) \<and> Offset (fset v p) \<le> sliceLen (data v)"
    using table Cons.prems(2,3) by simp
  have o: "orderedHit (fset v) d" using Cons.prems(2,4) by simp
  note A = visitCallback_offsetsValid[OF t o u]
  from A Cons.prems(2,3) have uf: "fset u = fs" and ud: "data u = D" by simp_all
  from Cons.prems(4) have os: "\<forall>d \<in> set ds. orderedHit fs d" by simp
  note B = Cons.IH[OF rest uf ud os]
  from A Cons.prems(3) obtain ms1 where
    1: "matches u = matches v @ ms1" "\<forall>mt \<in> set ms1. offsetsValid (elems D) mt"
    by auto
  from B obtain ms2 where
    2: "matches v' = matches u @ ms2" "\<forall>mt \<in> set ms2. offsetsValid (elems D) mt"
    by blast
  have "matches v' = matches v @ (ms1 @ ms2) \<and>
        (\<forall>mt \<in> set (ms1 @ ms2). offsetsValid (elems D) mt)"
    using 1 2 by auto
  then have "\<exists>ms. matches v' = matches v @ ms \<and> (\<forall>mt \<in> set ms. offsetsValid (elems D) mt)"
    by blast
  with A B show ?case by simp
qed

lemma Visit_offsetsValid:
  assumes table: "\<And>p. 0 \<le> Offset (fs p) \<and> Offset (fs p) \<le> sliceLen D"
    and run: "Visit env v nd = Some v'" and "fset v = fs" and "data v = D"
    and ord: "\<And>st hits st' h. MatchNode env (m_w v) st nd = (hits, st') \<Longrightarrow> h \<in> set hits \<Longrightarrow>
                orderedHit fs h"
  shows "data v' = D \<and> fset v' = fs \<and> m_w v' = m_w v \<and>
         (\<exists>ms. matches v' = matches v @ ms \<and> (\<forall>mt \<in> set ms. offsetsValid (elems D) mt))"
proof -
  obtain hits st where mn: "MatchNode env (m_w v) (gogrepState v) nd = (hits, st)"
    by (cases "MatchNode env (m_w v) (gogrepState v) nd")
  with run have r: "runCallbacks env (v\<lparr>gogrepState := st\<rparr>) hits = Some v'"
    by (simp add: Visit_def)
  have o: "\<forall>d \<in> set hits. orderedHit fs d" using ord[OF mn] by blast
  from runCallbacks_offsetsValid[OF table r _ _ o] assms(3,4) show ?thesis by simp
qed

lemma walk_offsetsValid:
  assumes table: "\<And>p. 0 \<le> Offset (fs p) \<and> Offset (fs p) \<le> sliceLen D"
  shows "walk env v nds = Some v' \<Longrightarrow> fset v = fs \<Longrightarrow> data v = D \<Longrightarrow>
         (\<And>st nd hits st' h. nd \<in> set nds \<Longrightarrow> MatchNode env (m_w v) st nd = (hits, st') \<Longrightarrow>
               h \<in> set hits \<Longrightarrow> orderedHit fs h) \<Longrightarrow>
         data v' = D \<and> fset v' = fs \<and> m_w v' = m_w v \<and>
         (\<exists>ms. matches v' = matches v @ ms \<and> (\<forall>mt \<in> set ms. offsetsValid (elems D) mt))"
proof (induction nds arbitrary: v)
  case Nil
  then show ?case by simp
next
  case (Cons nd nds)
  from Cons.prems(1) obtain u where u: "Visit env v nd = Some u"
    and rest: "walk env u nds = Some v'"
    by (auto split: option.splits)
  have o: "orderedHit fs h" if "MatchNode env (m_w v) st nd = (hits, st')" "h \<in> set hits"
    for st hits st' h
    using Cons.prems(4)[of nd st hits st' h] that by simp
  have A: "data u = D \<and> fset u = fs \<and> m_w u = m_w v \<and>
         (\<exists>ms. matches u = matches v @ ms \<and> (\<forall>mt \<in> set ms. offsetsValid (elems D) mt))"
    by (rule Visit_offsetsValid[OF table u Cons.prems(2,3)]) (erule (1) o)
  from A have uf: "fset u = fs" and ud: "data u = D" and um: "m_w u = m_w v" by simp_all
  have os: "orderedHit fs h"
    if "n \<in> set nds" "MatchNode env (m_w u) st n = (hits, st')" "h \<in> set hits"
    for st n hits st' h
    using Cons.prems(4)[of n st hits st' h] that um by simp
  have B: "data v' = D \<and> fset v' = fs \<and> m_w v' = m_w u \<and>
         (\<exists>ms. matches v' = matches u @ ms \<and> (\<forall>mt \<in> set ms. offsetsValid (elems D) mt))"
    by (rule Cons.IH[OF rest uf ud]) (erule (2) os)
  from A obtain ms1 where
    1: "matches u = matches v @ ms1" "\<forall>mt \<in> set ms1. offsetsValid (elems D) mt"
    by blast
  from B obtain ms2 where
    2: "matches v' = matches u @ ms2" "\<forall>mt \<in> set ms2. offsetsValid (elems D) mt"
    by blast
  have "matches v' = matches v @ (ms1 @ ms2) \<and>
        (\<forall>mt \<in> set (ms1 @ ms2). offsetsValid (elems D) mt)"
    using 1 2 by auto
  then have "\<exists>ms. matches v' = matches v @ ms \<and> (\<forall>mt \<in> set ms. offsetsValid (elems D) mt)"
    by blast
  with A B um show ?case by simp
qed

text \<open>
  Claim C8. Let the position table that the parser fills for the file map every
  position to an offset between 0 and the length of the bytes read, and let the matcher,
  on the nodes that the walker visits, report only nodes and captured nodes that do not
  end before they start. Then every match record that a returning call of grepFile
  appends to the matches of the worker has \<open>0 \<le> startOffset \<le> endOffset \<le> len(data)\<close>,
  with \<open>data\<close> the bytes of the file, which the worker holds when the record is made;
  and so have the two offsets of every captured node stored in the record.
\<close>

theorem appended_offsets_valid:
  assumes run: "grepFile env w fname = (Returned c e w', rd)"
    and table: "\<And>d fs f p. ReadFile env fname = Inr d \<Longrightarrow>
                  parseFile env w (NewFileSet env) fname d = (fs, Inr f) \<Longrightarrow>
                  0 \<le> Offset (fs p) \<and> Offset (fs p) \<le> sliceLen d"
    and ordered: "\<And>d fs f st nd hits st' h. ReadFile env fname = Inr d \<Longrightarrow>
                  parseFile env w (NewFileSet env) fname d = (fs, Inr f) \<Longrightarrow>
                  nd \<in> set (walkOrder env f) \<Longrightarrow>
                  MatchNode env (m_w w) st nd = (hits, st') \<Longrightarrow> h \<in> set hits \<Longrightarrow>
                  orderedHit fs h"
  shows "\<exists>ms. matches w' = matches w @ ms \<and>
              (\<forall>mt \<in> set ms. offsetsValid (elems (data w')) mt)"
proof (cases "returnsEarly env w fname")
  case True
  with run have "matches w' = matches w"
    unfolding returnsEarly_def grepFile_unfold[of env w fname]
    by (auto split: sum.splits prod.splits if_splits)
  then show ?thesis by simp
next
  case False
  from grepFile_walks[OF False] obtain d fs rootFile where
    rf: "ReadFile env fname = Inr d" and
    pf: "parseFile env w (NewFileSet env) fname d = (fs, Inr rootFile)" and
    g: "grepFile env w fname =
             (case walk env (w\<lparr>fset := fs, data := d, filename := fname,
                                pkgName := Name rootFile, n_w := 0\<rparr>)
                     (walkOrder env rootFile) of
                None \<Rightarrow> (Panicked, [fname])
              | Some w3 \<Rightarrow> (Returned (n_w w3) None w3, [fname]))" by blast
  let ?w2 = "w\<lparr>fset := fs, data := d, filename := fname, pkgName := Name rootFile, n_w := 0\<rparr>"
  from run g have wk: "walk env ?w2 (walkOrder env rootFile) = Some w'"
    by (auto split: option.splits)
  have t: "\<And>p. 0 \<le> Offset (fs p) \<and> Offset (fs p) \<le> sliceLen d"
    using table[OF rf pf] .
  have o: "orderedHit fs h"
    if "nd \<in> set (walkOrder env rootFile)" "MatchNode env (m_w ?w2) st nd = (hits, st')"
       "h \<in> set hits" for st nd hits st' h
  proof -
    from that(2) have "MatchNode env (m_w w) st nd = (hits, st')" by simp
    from ordered[OF rf pf that(1) this that(3)] show ?thesis .
  qed
  have "data w' = d \<and> fset w' = fs \<and> m_w w' = m_w ?w2 \<and>
         (\<exists>ms. matches w' = matches ?w2 @ ms \<and> (\<forall>mt \<in> set ms. offsetsValid (elems d) mt))"
    by (rule walk_offsetsValid[OF t wk]) (simp, simp, erule (2) o)
  then show ?thesis by simp
qed

theorem appended_offsets_valid_witness:
  "\<exists>w'. grepFile exampleEnv (zeroWorker\<lparr>needCapture := True\<rparr>) ''x.go'' =
           (Returned 4 None w', [''x.go'']) \<and>
         (\<forall>p. 0 \<le> Offset (exampleFset p) \<and> Offset (exampleFset p) \<le> sliceLen exampleData) \<and>
         (\<forall>nd \<in> set (walkOrder exampleEnv exampleFile).
            \<forall>h \<in> set (fst (MatchNode exampleEnv (m_w zeroWorker) (gogrepState zeroWorker) nd)).
              orderedHit exampleFset h) \<and>
         (\<exists>ms. matches w' = matches (zeroWorker\<lparr>needCapture := True\<rparr>) @ ms \<and> length ms = 4 \<and>
               (\<forall>mt \<in> set ms. offsetsValid (elems (data w')) mt))"
proof -
  let ?w = "zeroWorker\<lparr>needCapture := True\<rparr>"
  obtain w' where r: "grepFile exampleEnv ?w ''x.go'' = (Returned 4 None w', [''x.go''])"
    and l: "length (matches w') = 4"
    by (simp add: example_run_defs)
  have m: "matches ?w = []" by (simp add: zeroWorker_def)
  have rf: "ReadFile exampleEnv ''x.go'' = Inr exampleData" by (simp add: exampleEnv_def)
  have pf: "parseFile exampleEnv ?w (NewFileSet exampleEnv) ''x.go'' exampleData =
              (exampleFset, Inr exampleFile)"
    by (simp add: parseFile_def exampleEnv_def)
  have t: "0 \<le> Offset (exampleFset p) \<and> Offset (exampleFset p) \<le> sliceLen exampleData" for p
    by (simp add: exampleFset_def exampleData_def exampleBytes_def sliceLen_def)
  have o: "orderedHit exampleFset h"
    if "nd \<in> set (walkOrder exampleEnv exampleFile)"
       "MatchNode exampleEnv pat st nd = (hits, st')" "h \<in> set hits" for pat st nd hits st' h
    using that
    by (auto simp: exampleEnv_def exampleFile_def exampleNodes_def exprNode_def orderedHit_def
        exampleFset_def)
  have table: "0 \<le> Offset (fs p) \<and> Offset (fs p) \<le> sliceLen d"
    if "ReadFile exampleEnv ''x.go'' = Inr d"
       "parseFile exampleEnv ?w (NewFileSet exampleEnv) ''x.go'' d = (fs, Inr f)" for d fs f p
    using that rf pf t by simp
  have ordered: "orderedHit fs h"
    if "ReadFile exampleEnv ''x.go'' = Inr d"
       "parseFile exampleEnv ?w (NewFileSet exampleEnv) ''x.go'' d = (fs, Inr f)"
       "nd \<in> set (walkOrder exampleEnv f)" "MatchNode exampleEnv (m_w ?w) st nd = (hits, st')"
       "h \<in> set hits" for d fs f st nd hits st' h
  proof -
    from that(1,2) rf pf have "fs = exampleFset" "f = exampleFile" by simp_all
    with o[of nd "m_w ?w" st hits st' h] that(3,4,5) show ?thesis by simp
  qed
  have "\<exists>ms. matches w' = matches ?w @ ms \<and>
             (\<forall>mt \<in> set ms. offsetsValid (elems (data w')) mt)"
  proof (rule appended_offsets_valid[OF r])
    fix d fs f p
    assume "ReadFile exampleEnv ''x.go'' = Inr d"
      "parseFile exampleEnv ?w (NewFileSet exampleEnv) ''x.go'' d = (fs, Inr f)"
    then show "0 \<le> Offset (fs p) \<and> Offset (fs p) \<le> sliceLen d" by (rule table)
  next
    fix d fs f st nd hits st' h
    assume "ReadFile exampleEnv ''x.go'' = Inr d"
      "parseFile exampleEnv ?w (NewFileSet exampleEnv) ''x.go'' d = (fs, Inr f)"
      "nd \<in> set (walkOrder exampleEnv f)"
      "MatchNode exampleEnv (m_w ?w) st nd = (hits, st')" "h \<in> set hits"
    then show "orderedHit fs h" by (rule ordered)
  qed
  then obtain ms where
    ms: "matches w' = matches ?w @ ms" "\<forall>mt \<in> set ms. offsetsValid (elems (data w')) mt"
    by blast
  from ms l m have "length ms = 4" by simp
  moreover have "\<forall>nd \<in> set (walkOrder exampleEnv exampleFile).
            \<forall>h \<in> set (fst (MatchNode exampleEnv (m_w zeroWorker) (gogrepState zeroWorker) nd)).
              orderedHit exampleFset h"
    using o by (metis prod.collapse)
  ultimately show ?thesis using r t ms by blast
qed


end
